theory Spec2Isabelle
  imports Complex_Main "HOL-Library.Word"
begin

section \<open>Image overlay editor: shallow embedding of script.js\<close>

text \<open>
  Numbers of the script are modelled as mathematical reals, with exact arithmetic, in the
  geometry of the handlers; NaN and the infinities of IEEE doubles are outside the model.
  In \<open>normalizeAngle\<close> each loop step is rounded to the nearest double, because whether
  the loops advance, and so whether the function returns, depends on that rounding. Image
  dimensions and pixel indices are integers, colour channels are bytes. The script
  divides by the width and the height of the overlay and by its scale; a quotient by
  zero is an infinity or NaN there and 0 in HOL, so what is proved about such a quotient
  is stated for images of positive size.
\<close>

subsection \<open>normalizeAngle\<close>

text \<open>
  Rounding of a real to the nearest IEEE 754 binary64 number, ties to even: \<open>e\<close> is the
  exponent of the value (at least -1022, below which the numbers are subnormal) and \<open>q\<close>
  the spacing of the doubles around it. A result beyond the largest double, which IEEE
  turns into an infinity, does not arise below: the loop steps of \<open>normalizeAngle\<close> never
  increase the magnitude of a value larger than 360.
\<close>

definition roundHalfEven :: "real \<Rightarrow> int" where
  "roundHalfEven r =
     (let f = \<lfloor>r\<rfloor>;
          d = r - of_int f
      in if d < 1 / 2 then f
         else if d > 1 / 2 then f + 1
         else if even f then f else f + 1)"

definition toDouble :: "real \<Rightarrow> real" where
  "toDouble v =
     (if v = 0 then 0
      else
        let e = max \<lfloor>log 2 \<bar>v\<bar>\<rfloor> (- 1022);
            q = 2 powr of_int (e - 52)
        in of_int (roundHalfEven (v / q)) * q)"

text \<open>
  The two loops of \<open>normalizeAngle\<close>, \<^verbatim>\<open>while (a > 180) a -= 360;\<close> and
  \<^verbatim>\<open>while (a < -180) a += 360;\<close>, each step a double subtraction or addition. A loop that
  runs forever has the value \<open>None\<close>.
\<close>

partial_function (option) normalizeAngle_down :: "real \<Rightarrow> real option" where
  "normalizeAngle_down a =
     (if a > 180 then normalizeAngle_down (toDouble (a - 360)) else Some a)"

partial_function (option) normalizeAngle_up :: "real \<Rightarrow> real option" where
  "normalizeAngle_up a =
     (if a < - 180 then normalizeAngle_up (toDouble (a + 360)) else Some a)"

definition normalizeAngle :: "real \<Rightarrow> real option" where
  "normalizeAngle angle =
     (case normalizeAngle_down angle of
        None \<Rightarrow> None
      | Some a \<Rightarrow> normalizeAngle_up a)"

subsection \<open>Rasters and the grey key\<close>

text \<open>
  A decoded image is its pixel buffer: \<open>width\<close>, \<open>height\<close> and the RGBA bytes in row-major
  order, as \<open>getImageData\<close> returns them. An \<open>Image\<close> and its \<open>src\<close> data URL are both
  represented by the raster they hold; encoding a canvas as a PNG data URL and decoding
  that URL are lossless.
\<close>

type_synonym byte = "8 word"

record raster =
  width :: nat
  height :: nat
  data :: "byte list"

definition Math_round :: "real \<Rightarrow> int" where
  "Math_round v = \<lfloor>v + 1 / 2\<rfloor>"

text \<open>A store into a \<open>Uint8ClampedArray\<close> of a value that is already an integer.\<close>

definition toUint8Clamped :: "int \<Rightarrow> byte" where
  "toUint8Clamped a = word_of_int (max 0 (min 255 a))"

definition keyR :: int where "keyR = 128"
definition keyG :: int where "keyG = 128"
definition keyB :: int where "keyB = 128"
definition tol :: int where "tol = 22"
definition ramp :: int where "ramp = (if tol < 254 then 2 else 1)"

definition lut_entry :: "int \<Rightarrow> int" where
  "lut_entry d =
     (if d \<le> tol then 0
      else if d \<ge> tol + ramp then 255
      else Math_round ((255 * (real_of_int d - real_of_int tol)) / real_of_int ramp))"

definition lut :: "byte list" where
  "lut = map (\<lambda>d. toUint8Clamped (lut_entry (int d))) [0..<256]"

definition maxDiff :: "byte \<Rightarrow> byte \<Rightarrow> byte \<Rightarrow> int" where
  "maxDiff r g b =
     (let dr = \<bar>uint r - keyR\<bar>; dg = \<bar>uint g - keyG\<bar>; db = \<bar>uint b - keyB\<bar>
      in max dr (max dg db))"

text \<open>
  The pixel loop \<^verbatim>\<open>for (let i = 0; i < data.length; i += 4)\<close>. A buffer whose length is no
  multiple of four leaves its last bytes as they are: the reads past the end give
  \<open>undefined\<close> and the store past the end of a typed array is dropped.
\<close>

fun keyLoop :: "byte list \<Rightarrow> byte list" where
  "keyLoop (r # g # b # a # rest) = r # g # b # lut ! nat (maxDiff r g b) # keyLoop rest"
| "keyLoop bs = bs"

text \<open>
  \<^verbatim>\<open>tmpCtx.putImageData(imageData, 0, 0)\<close> and \<^verbatim>\<open>tmpCanvas.toDataURL()\<close>: the canvas of a
  browser keeps its pixels with the colour channels multiplied by alpha, in eight bits
  each, so a buffer written to it and read back as a PNG comes back with each colour
  channel multiplied by \<open>alpha / 255\<close>, rounded, divided by \<open>alpha / 255\<close> and rounded again.
  A pixel of alpha 0 comes back as four zero bytes.
\<close>

definition premultiply :: "byte \<Rightarrow> byte \<Rightarrow> byte" where
  "premultiply c a =
     toUint8Clamped (Math_round (real_of_int (uint c) * real_of_int (uint a) / 255))"

definition unpremultiply :: "byte \<Rightarrow> byte \<Rightarrow> byte" where
  "unpremultiply p a =
     (if a = 0 then 0
      else toUint8Clamped (Math_round (real_of_int (uint p) * 255 / real_of_int (uint a))))"

fun canvasRoundTrip :: "byte list \<Rightarrow> byte list" where
  "canvasRoundTrip (r # g # b # a # rest) =
     unpremultiply (premultiply r a) a # unpremultiply (premultiply g a) a
       # unpremultiply (premultiply b a) a # a # canvasRoundTrip rest"
| "canvasRoundTrip bs = bs"

text \<open>
  \<open>applyGreyKey\<close>: the argument is the buffer that \<open>getImageData\<close> returns for the raw image,
  the result is the image handed to the callback, decoded from the data URL of the
  canvas.
\<close>

definition applyGreyKey :: "raster \<Rightarrow> raster" where
  "applyGreyKey img = img\<lparr>data := canvasRoundTrip (keyLoop (data img))\<rparr>"


subsection \<open>Editor state\<close>

text \<open>
  \<open>overlayState\<close>: the fields \<open>x\<close> and \<open>y\<close> of the script are \<open>pos_x\<close> and \<open>pos_y\<close> here.
\<close>

record overlay_state =
  pos_x :: real
  pos_y :: real
  scale :: real
  angle :: real
  flipH :: bool
  flipV :: bool

text \<open>
  An entry of the undo or redo stack. The script builds two shapes of entry only:
  \<^verbatim>\<open>{ overlayData: overlayImg.src, originalData: overlayOriginalImg.src, state: {...overlayState} }\<close>
  and \<^verbatim>\<open>{ overlayData: null, originalData: null, state: null }\<close>.
\<close>

datatype snapshot =
  Snapshot (overlayData: raster) (originalData: raster) (state: overlay_state)
| NullSnapshot

text \<open>
  The global variables of the script that the editing logic reads and writes. The DOM
  widgets, the canvas, \<open>saveCounter\<close> and \<open>outputDirHandle\<close> (export only) are left out.
  A stack is a list whose top is its last element, as \<open>push\<close> and \<open>pop\<close> of a JavaScript
  array have it.
\<close>

record app =
  bgImg :: "raster option"
  overlayImg :: "raster option"
  overlayOriginalImg :: "raster option"
  overlayState :: overlay_state
  dragging :: bool
  dragData :: "real \<times> real"
  resizing :: bool
  resizeHandle :: int
  cropMode :: bool
  cropping :: bool
  cropStart :: "(real \<times> real) option"
  cropEnd :: "(real \<times> real) option"
  undoStack :: "snapshot list"
  redoStack :: "snapshot list"

definition initialOverlayState :: overlay_state where
  "initialOverlayState =
     \<lparr>pos_x = 0, pos_y = 0, scale = 1, angle = 0, flipH = False, flipV = False\<rparr>"

definition initialApp :: app where
  "initialApp =
     \<lparr>bgImg = None, overlayImg = None, overlayOriginalImg = None,
      overlayState = initialOverlayState,
      dragging = False, dragData = (0, 0), resizing = False, resizeHandle = - 1,
      cropMode = False, cropping = False, cropStart = None, cropEnd = None,
      undoStack = [], redoStack = []\<rparr>"

subsection \<open>History\<close>

definition saveState :: "app \<Rightarrow> app" where
  "saveState s =
     (case overlayImg s of
        None \<Rightarrow> s
      | Some ov \<Rightarrow>
          (case overlayOriginalImg s of
             None \<Rightarrow> s
           | Some orig \<Rightarrow>
               s\<lparr>undoStack := undoStack s @ [Snapshot ov orig (overlayState s)],
                 redoStack := []\<rparr>))"

text \<open>The entry that \<open>undo\<close> and \<open>redo\<close> build from the live state.\<close>

definition currentSnapshot :: "app \<Rightarrow> snapshot" where
  "currentSnapshot s =
     (case overlayImg s of
        None \<Rightarrow> NullSnapshot
      | Some ov \<Rightarrow>
          (case overlayOriginalImg s of
             None \<Rightarrow> NullSnapshot
           | Some orig \<Rightarrow> Snapshot ov orig (overlayState s)))"

text \<open>
  Installing a popped entry. The \<open>Image\<close> is decoded from \<open>overlayData\<close> and its \<open>onload\<close>
  runs at once (decoding is immediate in this model).
\<close>

definition restore :: "snapshot \<Rightarrow> app \<Rightarrow> app" where
  "restore snap s =
     (case snap of
        Snapshot img orig st \<Rightarrow>
          s\<lparr>overlayImg := Some img, overlayOriginalImg := Some img, overlayState := st\<rparr>
      | NullSnapshot \<Rightarrow> s\<lparr>overlayImg := None, overlayOriginalImg := None\<rparr>)"

definition undo :: "app \<Rightarrow> app" where
  "undo s =
     (if undoStack s = [] then s
      else
        let s1 = s\<lparr>redoStack := redoStack s @ [currentSnapshot s]\<rparr>;
            prev = last (undoStack s1);
            s2 = s1\<lparr>undoStack := butlast (undoStack s1)\<rparr>
        in restore prev s2)"

definition redo :: "app \<Rightarrow> app" where
  "redo s =
     (if redoStack s = [] then s
      else
        let s1 = s\<lparr>undoStack := undoStack s @ [currentSnapshot s]\<rparr>;
            next = last (redoStack s1);
            s2 = s1\<lparr>redoStack := butlast (redoStack s1)\<rparr>
        in restore next s2)"


subsection \<open>Loading and removing images\<close>

text \<open>
  \<open>onload\<close> of the background image. The handler returns early when no file was picked,
  so the event carries the decoded image.
\<close>

definition bgLoad :: "raster \<Rightarrow> app \<Rightarrow> app" where
  "bgLoad img s =
     (let s1 = s\<lparr>bgImg := Some img\<rparr>
      in case overlayImg s1 of
           None \<Rightarrow> s1
         | Some ov \<Rightarrow>
             let maxW = real (width img);
                 maxH = real (height img);
                 ovW = real (width ov);
                 ovH = real (height ov);
                 scaleX = maxW / ovW;
                 scaleY = maxH / ovH;
                 maxScale = min (min scaleX scaleY) 1;
                 st1 = (overlayState s1)\<lparr>scale := maxScale\<rparr>;
                 st2 = st1\<lparr>pos_x := min (pos_x st1) (real (width img) - ovW * scale st1)\<rparr>;
                 st3 = st2\<lparr>pos_y := min (pos_y st2) (real (height img) - ovH * scale st2)\<rparr>
             in s1\<lparr>overlayState := st3\<rparr>)"

text \<open>
  The overlay \<open>change\<close> handler with both of its callbacks: the raw image is decoded, keyed,
  and the keyed image installed.
\<close>

definition overlayLoad :: "raster \<Rightarrow> app \<Rightarrow> app" where
  "overlayLoad rawImg s =
     (case bgImg s of
        None \<Rightarrow> s
      | Some bg \<Rightarrow>
          let rgbaImg = applyGreyKey rawImg;
              maxW = real (width bg);
              maxH = real (height bg);
              ovW = real (width rgbaImg);
              ovH = real (height rgbaImg);
              scaleX = maxW / ovW;
              scaleY = maxH / ovH;
              maxScale = min (min scaleX scaleY) 1;
              st = (overlayState s)\<lparr>scale := maxScale, angle := 0,
                     flipH := False, flipV := False\<rparr>;
              st1 = st\<lparr>pos_x := min 20 (maxW - ovW * scale st)\<rparr>;
              st2 = st1\<lparr>pos_y := min 20 (maxH - ovH * scale st1)\<rparr>
          in saveState
               (s\<lparr>overlayImg := Some rgbaImg, overlayOriginalImg := Some rgbaImg,
                  overlayState := st2,
                  cropMode := False, cropping := False, cropStart := None, cropEnd := None,
                  undoStack := [], redoStack := []\<rparr>))"

definition removeOverlay :: "app \<Rightarrow> app" where
  "removeOverlay s =
     s\<lparr>overlayImg := None, overlayOriginalImg := None,
       cropMode := False, cropping := False, cropStart := None, cropEnd := None,
       undoStack := [], redoStack := []\<rparr>"

definition newSession :: "app \<Rightarrow> app" where
  "newSession s =
     s\<lparr>bgImg := None, overlayImg := None, overlayOriginalImg := None,
       overlayState := initialOverlayState, dragData := (0, 0),
       cropMode := False, cropping := False, cropStart := None, cropEnd := None,
       undoStack := [], redoStack := []\<rparr>"

subsection \<open>Buttons and the angle input\<close>

definition cropClick :: "app \<Rightarrow> app" where
  "cropClick s =
     (if overlayImg s = None then s
      else if \<not> cropMode s then
        (saveState s)\<lparr>cropMode := True, cropping := False,
                       cropStart := None, cropEnd := None\<rparr>
      else s\<lparr>cropMode := False, cropping := False, cropStart := None, cropEnd := None\<rparr>)"

definition smaller :: "app \<Rightarrow> app" where
  "smaller s =
     (case overlayImg s of
        None \<Rightarrow> s
      | Some ov \<Rightarrow>
          let s1 = saveState s;
              factor = 1 / 1.10;
              st1 = (overlayState s1)\<lparr>scale := scale (overlayState s1) * factor\<rparr>;
              w = real (width ov) * \<bar>scale st1\<bar>;
              h = real (height ov) * \<bar>scale st1\<bar>
          in case bgImg s1 of
               None \<Rightarrow> s1\<lparr>overlayState := st1\<rparr>
             | Some bg \<Rightarrow>
                 s1\<lparr>overlayState :=
                      st1\<lparr>pos_x := min (pos_x st1) (real (width bg) - w),
                          pos_y := min (pos_y st1) (real (height bg) - h)\<rparr>\<rparr>)"

definition bigger :: "app \<Rightarrow> app" where
  "bigger s =
     (case overlayImg s of
        None \<Rightarrow> s
      | Some ov \<Rightarrow>
          let s1 = saveState s;
              factor = 1.10;
              nextScale = scale (overlayState s1) * factor;
              w = real (width ov) * \<bar>nextScale\<bar>;
              h = real (height ov) * \<bar>nextScale\<bar>
          in case bgImg s1 of
               None \<Rightarrow> s1\<lparr>overlayState := (overlayState s1)\<lparr>scale := nextScale\<rparr>\<rparr>
             | Some bg \<Rightarrow>
                 if w > real (width bg) \<or> h > real (height bg) then s1
                 else s1\<lparr>overlayState := (overlayState s1)\<lparr>scale := nextScale\<rparr>\<rparr>)"

text \<open>
  The \<open>input\<close> handler of the angle field. Its argument is what \<open>parseFloat\<close> returns:
  \<open>None\<close> is NaN, which \<^verbatim>\<open>|| 0\<close> turns into 0.
\<close>

definition angleInput :: "real option \<Rightarrow> app \<Rightarrow> app" where
  "angleInput parsed s =
     (let s1 = saveState s;
          val = (case parsed of None \<Rightarrow> 0 | Some v \<Rightarrow> v);
          a0 = val;
          a1 = (if a0 > 180 then a0 - 360 else a0);
          a2 = (if a1 < - 180 then a1 + 360 else a1)
      in s1\<lparr>overlayState := (overlayState s1)\<lparr>angle := a2\<rparr>\<rparr>)"

text \<open>
  The rotation buttons call \<open>normalizeAngle\<close>; when that call does not return, neither does
  the handler, and the page handles no further event: the handler has no result state.
\<close>

definition rotM5 :: "app \<Rightarrow> app option" where
  "rotM5 s =
     (let s1 = saveState s
      in case normalizeAngle (angle (overlayState s1) - 5) of
           None \<Rightarrow> None
         | Some a \<Rightarrow> Some (s1\<lparr>overlayState := (overlayState s1)\<lparr>angle := a\<rparr>\<rparr>))"

definition rotP5 :: "app \<Rightarrow> app option" where
  "rotP5 s =
     (let s1 = saveState s
      in case normalizeAngle (angle (overlayState s1) + 5) of
           None \<Rightarrow> None
         | Some a \<Rightarrow> Some (s1\<lparr>overlayState := (overlayState s1)\<lparr>angle := a\<rparr>\<rparr>))"

definition rotReset :: "app \<Rightarrow> app" where
  "rotReset s =
     (let s1 = saveState s
      in s1\<lparr>overlayState := (overlayState s1)\<lparr>angle := 0\<rparr>\<rparr>)"

definition flipHClick :: "app \<Rightarrow> app" where
  "flipHClick s =
     (let s1 = saveState s
      in s1\<lparr>overlayState := (overlayState s1)\<lparr>flipH := \<not> flipH (overlayState s1)\<rparr>\<rparr>)"

definition flipVClick :: "app \<Rightarrow> app" where
  "flipVClick s =
     (let s1 = saveState s
      in s1\<lparr>overlayState := (overlayState s1)\<lparr>flipV := \<not> flipV (overlayState s1)\<rparr>\<rparr>)"


subsection \<open>Pointer events\<close>

text \<open>
  A pointer event carries the pointer position in canvas pixels, the \<open>x\<close> and \<open>y\<close> that each
  handler computes from \<open>clientX\<close>, \<open>clientY\<close> and the bounding rectangle of the canvas.
\<close>

definition corners :: "real \<Rightarrow> real \<Rightarrow> (real \<times> real) list" where
  "corners w h = [(- w / 2, - h / 2), (w / 2, - h / 2), (w / 2, h / 2), (- w / 2, h / 2)]"

text \<open>The loop over the four handles: the index of the first one hit.\<close>

fun handleLoop :: "(real \<times> real) list \<Rightarrow> int \<Rightarrow> real \<Rightarrow> real \<Rightarrow> int option" where
  "handleLoop [] i localX localY = None"
| "handleLoop (c # cs) i localX localY =
     (let handleSize = 10
      in if \<bar>localX - fst c\<bar> \<le> handleSize \<and> \<bar>localY - snd c\<bar> \<le> handleSize
         then Some i
         else handleLoop cs (i + 1) localX localY)"

text \<open>
  The branch of \<open>pointerdown\<close> taken in crop mode, from \<^verbatim>\<open>if (cropMode) {\<close> to its two
  \<open>return\<close>s; \<open>localX\<close> and \<open>localY\<close> are the handler's constants. With no original image,
  \<open>overlayOriginalImg.width\<close> throws and the handler stops there.
\<close>

definition cropDown :: "real \<Rightarrow> real \<Rightarrow> app \<Rightarrow> app" where
  "cropDown localX localY s =
     (case overlayOriginalImg s of
        None \<Rightarrow> s
      | Some orig \<Rightarrow>
          let unscaledX = localX / scale (overlayState s);
              unscaledY = localY / scale (overlayState s)
          in if \<bar>unscaledX\<bar> \<le> real (width orig) / 2 \<and> \<bar>unscaledY\<bar> \<le> real (height orig) / 2
             then s\<lparr>cropping := True,
                    cropStart := Some (unscaledX, unscaledY),
                    cropEnd := Some (unscaledX, unscaledY)\<rparr>
             else s\<lparr>cropMode := False, cropping := False,
                    cropStart := None, cropEnd := None\<rparr>)"

text \<open>
  The rest of \<open>pointerdown\<close>: the resize handles first, then the interior of the overlay.
\<close>

definition gestureDown :: "real \<Rightarrow> real \<Rightarrow> real \<Rightarrow> real \<Rightarrow> app \<Rightarrow> app" where
  "gestureDown localX localY w h s =
     (case handleLoop (corners w h) 0 localX localY of
        Some i \<Rightarrow> s\<lparr>resizing := True, resizeHandle := i, dragging := False\<rparr>
      | None \<Rightarrow>
          if \<bar>localX\<bar> \<le> w / 2 \<and> \<bar>localY\<bar> \<le> h / 2
          then s\<lparr>dragging := True, dragData := (localX, localY)\<rparr>
          else s)"

definition pointerdown :: "real \<Rightarrow> real \<Rightarrow> app \<Rightarrow> app" where
  "pointerdown px py s =
     (case overlayImg s of
        None \<Rightarrow> s
      | Some ov \<Rightarrow>
     (case bgImg s of
        None \<Rightarrow> s
      | Some bg \<Rightarrow>
          let s1 = saveState s;
              st = overlayState s1;
              w = real (width ov) * \<bar>scale st\<bar>;
              h = real (height ov) * \<bar>scale st\<bar>;
              cx = pos_x st + w / 2;
              cy = pos_y st + h / 2;
              dx = px - cx;
              dy = py - cy;
              angleRad = (- angle st * pi) / 180;
              localX = dx * cos angleRad - dy * sin angleRad;
              localY = dx * sin angleRad + dy * cos angleRad
          in if cropMode s1 then cropDown localX localY s1
             else gestureDown localX localY w h s1))"

text \<open>
  The three branches of \<open>pointermove\<close>, each with the constants the handler computes
  before them (\<open>w\<close>, \<open>h\<close>, \<open>cx\<close>, \<open>cy\<close>, \<open>angleRad\<close>) as parameters.
\<close>

definition cropMove :: "real \<Rightarrow> real \<Rightarrow> real \<Rightarrow> real \<Rightarrow> app \<Rightarrow> app" where
  "cropMove px py cx cy s =
     (let st = overlayState s;
          dxp = px - cx;
          dyp = py - cy;
          angleR = (- angle st * pi) / 180;
          localXS = dxp * cos angleR - dyp * sin angleR;
          localYS = dxp * sin angleR + dyp * cos angleR;
          unscaledX = localXS / scale st;
          unscaledY = localYS / scale st
      in s\<lparr>cropEnd := Some (unscaledX, unscaledY)\<rparr>)"

definition resizeMove ::
  "real \<Rightarrow> real \<Rightarrow> raster \<Rightarrow> raster \<Rightarrow> real \<Rightarrow> real \<Rightarrow> real \<Rightarrow> app \<Rightarrow> app" where
  "resizeMove px py ov bg cx cy angleRad s =
     (let dxPointer = px - cx;
          dyPointer = py - cy;
          localX = dxPointer * cos (- angleRad) - dyPointer * sin (- angleRad);
          localY = dxPointer * sin (- angleRad) + dyPointer * cos (- angleRad);
          halfW = \<bar>localX\<bar>;
          halfH = \<bar>localY\<bar>;
          scaleX = (2 * halfW) / real (width ov);
          scaleY = (2 * halfH) / real (height ov);
          newScale0 = min scaleX scaleY;
          maxScale = min (real (width bg) / real (width ov))
                         (real (height bg) / real (height ov));
          newScale1 = min newScale0 maxScale;
          minScale = 0.05;
          newScale = (if newScale1 < minScale then minScale else newScale1);
          newW = real (width ov) * newScale;
          newH = real (height ov) * newScale;
          x0 = cx - newW / 2;
          y0 = cy - newH / 2
      in s\<lparr>overlayState :=
             (overlayState s)\<lparr>scale := newScale,
                pos_x := max 0 (min x0 (real (width bg) - newW)),
                pos_y := max 0 (min y0 (real (height bg) - newH))\<rparr>\<rparr>)"

definition dragMove :: "real \<Rightarrow> real \<Rightarrow> raster \<Rightarrow> real \<Rightarrow> real \<Rightarrow> real \<Rightarrow> app \<Rightarrow> app" where
  "dragMove px py bg w h angleRad s =
     (let dx = fst (dragData s);
          dy = snd (dragData s);
          globalLocalX = dx * cos angleRad - dy * sin angleRad;
          globalLocalY = dx * sin angleRad + dy * cos angleRad;
          newCx = px - globalLocalX;
          newCy = py - globalLocalY;
          newX0 = newCx - w / 2;
          newY0 = newCy - h / 2;
          newX = max 0 (min newX0 (real (width bg) - w));
          newY = max 0 (min newY0 (real (height bg) - h))
      in s\<lparr>overlayState := (overlayState s)\<lparr>pos_x := newX, pos_y := newY\<rparr>\<rparr>)"

definition pointermove :: "real \<Rightarrow> real \<Rightarrow> app \<Rightarrow> app" where
  "pointermove px py s =
     (case overlayImg s of
        None \<Rightarrow> s
      | Some ov \<Rightarrow>
     (case bgImg s of
        None \<Rightarrow> s
      | Some bg \<Rightarrow>
          let st = overlayState s;
              w = real (width ov) * \<bar>scale st\<bar>;
              h = real (height ov) * \<bar>scale st\<bar>;
              cx = pos_x st + w / 2;
              cy = pos_y st + h / 2;
              angleRad = (angle st * pi) / 180
          in if cropping s then cropMove px py cx cy s
             else if resizing s then resizeMove px py ov bg cx cy angleRad s
             else if dragging s then dragMove px py bg w h angleRad s
             else s))"

subsection \<open>Cropping\<close>

text \<open>
  \<^verbatim>\<open>tmpCtx.drawImage(overlayOriginalImg, -u1, -v1)\<close> on a fresh canvas of \<open>wCrop\<close> by \<open>hCrop\<close>
  pixels, read back as an image: row by row, the \<open>wCrop\<close> pixels from column \<open>u1\<close> on.
  \<open>performCrop\<close> calls it with a rectangle that lies within the image. The overlay has
  been through a canvas before, and this second passage is taken to be lossless.
\<close>

definition cropRaster :: "raster \<Rightarrow> nat \<Rightarrow> nat \<Rightarrow> nat \<Rightarrow> nat \<Rightarrow> raster" where
  "cropRaster img u1 v1 wCrop hCrop =
     \<lparr>width = wCrop, height = hCrop,
      data = concat (map (\<lambda>v. take (4 * wCrop) (drop (4 * (v * width img + u1)) (data img)))
                         [v1..<v1 + hCrop])\<rparr>"

text \<open>
  The four bytes of the pixel in column \<open>i\<close> and row \<open>j\<close> of a raster; what it means that
  one raster is a sub-rectangle of another is stated with it.
\<close>

definition pixelAt :: "raster \<Rightarrow> nat \<Rightarrow> nat \<Rightarrow> byte list" where
  "pixelAt img i j = take 4 (drop (4 * (j * width img + i)) (data img))"

text \<open>
  The \<open>onload\<close> callback of the cropped image, with the constants of \<open>performCrop\<close> that it
  closes over as parameters. With no background image it throws at \<open>bgImg.width\<close>, after
  it has installed the new image.
\<close>

definition cropOnload ::
  "raster \<Rightarrow> real \<Rightarrow> real \<Rightarrow> real \<Rightarrow> real \<Rightarrow> int \<Rightarrow> int \<Rightarrow> app \<Rightarrow> app" where
  "cropOnload newImg cropCenterX cropCenterY oldWidth oldHeight wCrop hCrop s =
     (let s1 = s\<lparr>overlayImg := Some newImg, overlayOriginalImg := Some newImg\<rparr>
      in case bgImg s1 of
           None \<Rightarrow> s1
         | Some bg \<Rightarrow>
             let st = overlayState s1;
                 angleRad = (angle st * pi) / 180;
                 deltaX = cropCenterX * scale st;
                 deltaY = cropCenterY * scale st;
                 shiftX = deltaX * cos angleRad - deltaY * sin angleRad;
                 shiftY = deltaX * sin angleRad + deltaY * cos angleRad;
                 oldCentreX = pos_x st + (oldWidth * scale st) / 2;
                 oldCentreY = pos_y st + (oldHeight * scale st) / 2;
                 newWidthScaled = real_of_int wCrop * scale st;
                 newHeightScaled = real_of_int hCrop * scale st;
                 newCentreX = oldCentreX + shiftX;
                 newCentreY = oldCentreY + shiftY;
                 newX0 = newCentreX - newWidthScaled / 2;
                 newY0 = newCentreY - newHeightScaled / 2;
                 newX = max 0 (min newX0 (real (width bg) - newWidthScaled));
                 newY = max 0 (min newY0 (real (height bg) - newHeightScaled))
             in s1\<lparr>overlayState := st\<lparr>pos_x := newX, pos_y := newY\<rparr>,
                   cropStart := None, cropEnd := None\<rparr>)"

text \<open>\<open>performCrop\<close>; the cropped image is decoded and its \<open>onload\<close> runs at once.\<close>

definition performCrop :: "app \<Rightarrow> app" where
  "performCrop s =
     (case cropStart s of
        None \<Rightarrow> s
      | Some cs \<Rightarrow>
     (case cropEnd s of
        None \<Rightarrow> s
      | Some ce \<Rightarrow>
     (case overlayOriginalImg s of
        None \<Rightarrow> s
      | Some orig \<Rightarrow>
          let oldWidth = real (width orig);
              oldHeight = real (height orig);
              x1 = min (fst cs) (fst ce);
              x2 = max (fst cs) (fst ce);
              y1 = min (snd cs) (snd ce);
              y2 = max (snd cs) (snd ce);
              x1f = (if flipH (overlayState s) then - x2 else x1);
              x2f = (if flipH (overlayState s) then - x1 else x2);
              y1f = (if flipV (overlayState s) then - y2 else y1);
              y2f = (if flipV (overlayState s) then - y1 else y2);
              u1 = max 0 \<lfloor>x1f + oldWidth / 2\<rfloor>;
              u2 = min (int (width orig)) \<lceil>x2f + oldWidth / 2\<rceil>;
              v1 = max 0 \<lfloor>y1f + oldHeight / 2\<rfloor>;
              v2 = min (int (height orig)) \<lceil>y2f + oldHeight / 2\<rceil>;
              wCrop = u2 - u1;
              hCrop = v2 - v1
          in if wCrop \<le> 0 \<or> hCrop \<le> 0 then s\<lparr>cropStart := None, cropEnd := None\<rparr>
             else
               let cropCenterX = (x1f + x2f) / 2;
                   cropCenterY = (y1f + y2f) / 2;
                   newImg = cropRaster orig (nat u1) (nat v1) (nat wCrop) (nat hCrop)
               in cropOnload newImg cropCenterX cropCenterY oldWidth oldHeight
                    wCrop hCrop s)))"

definition pointerup :: "app \<Rightarrow> app" where
  "pointerup s =
     (if cropping s then performCrop (s\<lparr>cropping := False, cropMode := False\<rparr>)
      else
        let s1 = (if dragging s then s\<lparr>dragging := False\<rparr> else s);
            s2 = (if resizing s1 then s1\<lparr>resizing := False, resizeHandle := - 1\<rparr> else s1)
        in s2)"

subsection \<open>Events and reachable states\<close>

datatype event =
  BgLoad raster
| OverlayLoad raster
| RemoveOverlay
| NewSession
| Smaller
| Bigger
| AngleInput "real option"
| RotM5
| RotP5
| RotReset
| FlipH
| FlipV
| CropClick
| PointerDown real real
| PointerMove real real
| PointerUp
| Undo
| Redo

text \<open>One event, handled to the end; \<open>None\<close> when the handler does not return.\<close>

fun step :: "app \<Rightarrow> event \<Rightarrow> app option" where
  "step s (BgLoad img) = Some (bgLoad img s)"
| "step s (OverlayLoad rawImg) = Some (overlayLoad rawImg s)"
| "step s RemoveOverlay = Some (removeOverlay s)"
| "step s NewSession = Some (newSession s)"
| "step s Smaller = Some (smaller s)"
| "step s Bigger = Some (bigger s)"
| "step s (AngleInput parsed) = Some (angleInput parsed s)"
| "step s RotM5 = rotM5 s"
| "step s RotP5 = rotP5 s"
| "step s RotReset = Some (rotReset s)"
| "step s FlipH = Some (flipHClick s)"
| "step s FlipV = Some (flipVClick s)"
| "step s CropClick = Some (cropClick s)"
| "step s (PointerDown px py) = Some (pointerdown px py s)"
| "step s (PointerMove px py) = Some (pointermove px py s)"
| "step s PointerUp = Some (pointerup s)"
| "step s Undo = Some (undo s)"
| "step s Redo = Some (redo s)"

inductive reachable :: "app \<Rightarrow> bool" where
  reachable_init: "reachable initialApp"
| reachable_step: "reachable s \<Longrightarrow> step s e = Some s' \<Longrightarrow> reachable s'"


subsection \<open>Invariant of the history\<close>

text \<open>
  What holds of the two image references and the two stacks in every reachable state:
  both references hold the same image, the stacks are empty while no overlay is loaded,
  and every stack entry was taken from a loaded overlay. \<open>hist\<close> is the part of the state
  this speaks about.
\<close>

fun wellformed_entry :: "snapshot \<Rightarrow> bool" where
  "wellformed_entry (Snapshot img orig st) = (img = orig)"
| "wellformed_entry NullSnapshot = False"

definition history_inv :: "app \<Rightarrow> bool" where
  "history_inv s \<longleftrightarrow>
     overlayImg s = overlayOriginalImg s
     \<and> (overlayImg s = None \<longrightarrow> undoStack s = [] \<and> redoStack s = [])
     \<and> list_all wellformed_entry (undoStack s)
     \<and> list_all wellformed_entry (redoStack s)"

definition hist :: "app \<Rightarrow> raster option \<times> raster option \<times> snapshot list \<times> snapshot list" where
  "hist s = (overlayImg s, overlayOriginalImg s, undoStack s, redoStack s)"



subsection \<open>Example states\<close>

text \<open>
  A background of 200 by 100 pixels and an overlay of 100 by 50 pixels, and states the
  editor reaches with them: after both are loaded, after a click on the +5 button (the
  state that \<open>rotP5\<close> returns), and in the course of a crop, a drag and a resize gesture.
\<close>

definition exampleBg :: raster where
  "exampleBg = \<lparr>width = 200, height = 100, data = replicate 80000 255\<rparr>"

definition exampleRaw :: raster where
  "exampleRaw = \<lparr>width = 100, height = 50, data = replicate 20000 200\<rparr>"

definition exampleOverlay :: raster where
  "exampleOverlay = applyGreyKey exampleRaw"

definition loadedState :: overlay_state where
  "loadedState = \<lparr>pos_x = 20, pos_y = 20, scale = 1, angle = 0, flipH = False, flipV = False\<rparr>"

definition loadedApp :: app where
  "loadedApp = overlayLoad exampleRaw (bgLoad exampleBg initialApp)"

definition rotatedApp :: app where
  "rotatedApp =
     (saveState loadedApp)\<lparr>overlayState := (overlayState (saveState loadedApp))\<lparr>angle := 5\<rparr>\<rparr>"

definition cropArmedApp :: app where
  "cropArmedApp = cropClick loadedApp"

definition cropStartedApp :: app where
  "cropStartedApp = pointerdown 70 45 cropArmedApp"

definition cropDraggedApp :: app where
  "cropDraggedApp = pointermove 90 55 cropStartedApp"

definition dragStartedApp :: app where
  "dragStartedApp = pointerdown 80 50 loadedApp"

definition resizeStartedApp :: app where
  "resizeStartedApp = pointerdown 120 70 loadedApp"

subsection \<open>What saveState leaves alone\<close>

lemma saveState_fields:
  "overlayState (saveState s) = overlayState s"
  "cropMode (saveState s) = cropMode s"
  "overlayImg (saveState s) = overlayImg s"
  "overlayOriginalImg (saveState s) = overlayOriginalImg s"
  "bgImg (saveState s) = bgImg s"
  by (simp_all add: saveState_def split: option.split)

subsection \<open>Properties of normalizeAngle\<close>

lemma roundHalfEven_near:
  assumes "\<bar>r - of_int n\<bar> < 1 / 2"
  shows "roundHalfEven r = n"
proof (cases "of_int n \<le> r")
  case True
  with assms have "\<lfloor>r\<rfloor> = n" by (intro floor_unique) auto
  with assms True show ?thesis by (simp add: roundHalfEven_def)
next
  case False
  with assms have f: "\<lfloor>r\<rfloor> = n - 1" by (intro floor_unique) auto
  from assms False have "r - of_int (n - 1) > 1 / 2" by simp
  with f show ?thesis by (simp add: roundHalfEven_def Let_def)
qed

lemma roundHalfEven_le:
  assumes "r \<le> of_int n"
  shows "roundHalfEven r \<le> n"
proof (cases "r = of_int n")
  case True
  then show ?thesis by (simp add: roundHalfEven_def)
next
  case False
  with assms have "r < of_int n" by simp
  then have "\<lfloor>r\<rfloor> < n" by (simp add: floor_less_iff)
  then show ?thesis by (auto simp: roundHalfEven_def Let_def)
qed

lemma roundHalfEven_ge:
  assumes "of_int n \<le> r"
  shows "n \<le> roundHalfEven r"
proof -
  have "n \<le> \<lfloor>r\<rfloor>" using assms by (simp add: le_floor_iff)
  then show ?thesis by (auto simp: roundHalfEven_def Let_def)
qed

lemma toDouble_eval:
  assumes "v \<noteq> 0" and "- 1022 \<le> k"
    and "2 powr of_int k \<le> \<bar>v\<bar>" and "\<bar>v\<bar> < 2 powr of_int (k + 1)"
    and "\<bar>v / 2 powr of_int (k - 52) - of_int n\<bar> < 1 / 2"
  shows "toDouble v = of_int n * 2 powr of_int (k - 52)"
proof -
  have "0 < \<bar>v\<bar>" using assms(1) by simp
  then have "\<lfloor>log 2 \<bar>v\<bar>\<rfloor> = k"
    using assms(3,4) by (simp add: floor_log_eq_powr_iff)
  then have e: "max \<lfloor>log 2 \<bar>v\<bar>\<rfloor> (- 1022) = k" using assms(2) by simp
  show ?thesis
    unfolding toDouble_def Let_def e
    using assms(1) roundHalfEven_near [OF assms(5)] by simp
qed

text \<open>
  The doubles around \<open>10^19\<close> are 2048 apart, so \<open>10^19 - 360\<close> rounds back to \<open>10^19\<close>.
\<close>

lemma toDouble_stuck: "toDouble 9999999999999999640 = 10000000000000000000"
  using toDouble_eval [of 9999999999999999640 63 4882812500000000] by simp

lemma toDouble_stuck_again: "toDouble 9999999999999999285 = 10000000000000000000"
  using toDouble_eval [of 9999999999999999285 63 4882812500000000] by simp

lemma toDouble_m90: "toDouble (- 90) = - 90"
  using toDouble_eval [of "- 90" 6 "- 90 * 2 ^ 46"] by (simp add: powr_minus)

lemma toDouble_90: "toDouble 90 = 90"
  using toDouble_eval [of "90" 6 "90 * 2 ^ 46"] by (simp add: powr_minus)

lemma toDouble_le_180:
  assumes "v \<le> 180"
  shows "toDouble v \<le> 180"
proof (cases "v \<le> 0")
  case True
  show ?thesis
  proof (cases "v = 0")
    case True
    then show ?thesis by (simp add: toDouble_def)
  next
    case False
    define q :: real where "q = 2 powr of_int (max \<lfloor>log 2 \<bar>v\<bar>\<rfloor> (- 1022) - 52)"
    have q: "0 < q" by (simp add: q_def)
    with True have "v / q \<le> of_int 0" by (simp add: divide_nonpos_pos)
    then have "roundHalfEven (v / q) \<le> 0" by (rule roundHalfEven_le)
    then have "of_int (roundHalfEven (v / q)) * q \<le> 0"
      using q by (simp add: mult_nonpos_nonneg)
    then show ?thesis using False by (simp add: toDouble_def Let_def q_def)
  qed
next
  case False
  then have pos: "0 < v" by simp
  define e where "e = max \<lfloor>log 2 \<bar>v\<bar>\<rfloor> (- 1022)"
  have "v < 2 powr 8" using assms by simp
  then have "log 2 v < 8" using pos by (simp add: log_less_iff)
  then have "\<lfloor>log 2 \<bar>v\<bar>\<rfloor> < 8" using pos by (simp add: floor_less_iff)
  then have e7: "e \<le> 7" by (simp add: e_def)
  define k where "k = nat (52 - e)"
  have k: "of_int (e - 52) = - real k" using e7 by (simp add: k_def)
  have q: "(2::real) powr of_int (e - 52) = 1 / 2 ^ k"
    unfolding k by (simp add: powr_minus powr_realpow inverse_eq_divide)
  have "v * 2 ^ k \<le> 180 * 2 ^ k" using assms by (intro mult_right_mono) simp_all
  then have "v / (1 / 2 ^ k) \<le> of_int (180 * 2 ^ k)" by simp
  then have "roundHalfEven (v / (1 / 2 ^ k)) \<le> 180 * 2 ^ k" by (rule roundHalfEven_le)
  then have "real_of_int (roundHalfEven (v / (1 / 2 ^ k))) \<le> real_of_int (180 * 2 ^ k)"
    by (simp only: of_int_le_iff)
  then have "real_of_int (roundHalfEven (v / (1 / 2 ^ k))) \<le> 180 * 2 ^ k"
    by simp
  then have "real_of_int (roundHalfEven (v / (1 / 2 ^ k))) * (1 / 2 ^ k) \<le> 180"
    by (simp add: field_simps)
  moreover have ne: "v \<noteq> 0" using pos by simp
  have "toDouble v = real_of_int (roundHalfEven (v / 2 powr of_int (e - 52)))
      * 2 powr of_int (e - 52)"
    unfolding toDouble_def Let_def e_def by (simp only: ne if_False)
  ultimately show ?thesis unfolding q by simp
qed

lemma toDouble_ge_m180:
  assumes "- 180 \<le> v"
  shows "- 180 \<le> toDouble v"
proof (cases "0 \<le> v")
  case True
  show ?thesis
  proof (cases "v = 0")
    case True
    then show ?thesis by (simp add: toDouble_def)
  next
    case False
    define q :: real where "q = 2 powr of_int (max \<lfloor>log 2 \<bar>v\<bar>\<rfloor> (- 1022) - 52)"
    have q: "0 < q" by (simp add: q_def)
    with True have "of_int 0 \<le> v / q" by simp
    then have "0 \<le> roundHalfEven (v / q)" by (rule roundHalfEven_ge)
    then have "0 \<le> of_int (roundHalfEven (v / q)) * q"
      using q by simp
    then show ?thesis using False by (simp add: toDouble_def Let_def q_def)
  qed
next
  case False
  then have neg: "v < 0" by simp
  define e where "e = max \<lfloor>log 2 \<bar>v\<bar>\<rfloor> (- 1022)"
  have "\<bar>v\<bar> < 2 powr 8" using assms neg by simp
  then have "log 2 \<bar>v\<bar> < 8" using neg by (simp add: log_less_iff)
  then have "\<lfloor>log 2 \<bar>v\<bar>\<rfloor> < 8" by (simp add: floor_less_iff)
  then have e7: "e \<le> 7" by (simp add: e_def)
  define k where "k = nat (52 - e)"
  have k: "of_int (e - 52) = - real k" using e7 by (simp add: k_def)
  have q: "(2::real) powr of_int (e - 52) = 1 / 2 ^ k"
    unfolding k by (simp add: powr_minus powr_realpow inverse_eq_divide)
  have "- 180 * 2 ^ k \<le> v * 2 ^ k" using assms by (intro mult_right_mono) simp_all
  then have "of_int (- 180 * 2 ^ k) \<le> v / (1 / 2 ^ k)" by simp
  then have "- 180 * 2 ^ k \<le> roundHalfEven (v / (1 / 2 ^ k))" by (rule roundHalfEven_ge)
  then have "real_of_int (- 180 * 2 ^ k) \<le> real_of_int (roundHalfEven (v / (1 / 2 ^ k)))"
    by (simp only: of_int_le_iff)
  then have "- 180 * 2 ^ k \<le> real_of_int (roundHalfEven (v / (1 / 2 ^ k)))"
    by simp
  then have "- 180 \<le> real_of_int (roundHalfEven (v / (1 / 2 ^ k))) * (1 / 2 ^ k)"
    by (simp add: field_simps)
  moreover have ne: "v \<noteq> 0" using neg by simp
  have "toDouble v = real_of_int (roundHalfEven (v / 2 powr of_int (e - 52)))
      * 2 powr of_int (e - 52)"
    unfolding toDouble_def Let_def e_def by (simp only: ne if_False)
  ultimately show ?thesis unfolding q by simp
qed

text \<open>The loop that started at \<open>10^19\<close> is at \<open>10^19\<close> again after one step.\<close>

lemma normalizeAngle_down_stuck: "normalizeAngle_down 10000000000000000000 = None"
proof -
  have "a \<noteq> 10000000000000000000" if h: "normalizeAngle_down a = Some y" for a y
  proof (rule normalizeAngle_down.raw_induct
      [where P = "\<lambda>a y. a \<noteq> 10000000000000000000", OF _ h])
    fix f :: "real \<Rightarrow> real option" and a y
    assume ih: "\<And>x y. f x = Some y \<Longrightarrow> x \<noteq> 10000000000000000000"
      and eq: "(if 180 < a then f (toDouble (a - 360)) else Some a) = Some y"
    show "a \<noteq> 10000000000000000000"
    proof
      assume "a = 10000000000000000000"
      with eq have "f 10000000000000000000 = Some y"
        by (simp add: toDouble_stuck)
      from ih [OF this] show False by simp
    qed
  qed
  then show ?thesis by (cases "normalizeAngle_down 10000000000000000000") auto
qed


lemma normalizeAngle_down_le:
  assumes "normalizeAngle_down a = Some y"
  shows "y \<le> 180"
proof (rule normalizeAngle_down.raw_induct [where P = "\<lambda>a y. y \<le> 180", OF _ assms])
  fix f :: "real \<Rightarrow> real option" and a y
  assume ih: "\<And>x y. f x = Some y \<Longrightarrow> y \<le> 180"
    and eq: "(if 180 < a then f (toDouble (a - 360)) else Some a) = Some y"
  show "y \<le> 180"
  proof (cases "180 < a")
    case True
    with eq have "f (toDouble (a - 360)) = Some y" by simp
    then show ?thesis by (rule ih)
  next
    case False
    with eq show ?thesis by simp
  qed
qed

lemma normalizeAngle_up_ge:
  assumes "normalizeAngle_up a = Some y"
  shows "- 180 \<le> y"
proof (rule normalizeAngle_up.raw_induct [where P = "\<lambda>a y. - 180 \<le> y", OF _ assms])
  fix f :: "real \<Rightarrow> real option" and a y
  assume ih: "\<And>x y. f x = Some y \<Longrightarrow> - 180 \<le> y"
    and eq: "(if a < - 180 then f (toDouble (a + 360)) else Some a) = Some y"
  show "- 180 \<le> y"
  proof (cases "a < - 180")
    case True
    with eq have "f (toDouble (a + 360)) = Some y" by simp
    then show ?thesis by (rule ih)
  next
    case False
    with eq show ?thesis by simp
  qed
qed

lemma normalizeAngle_up_le:
  assumes "normalizeAngle_up a = Some y"
  shows "a \<le> 180 \<longrightarrow> y \<le> 180"
proof (rule normalizeAngle_up.raw_induct
    [where P = "\<lambda>a y. a \<le> 180 \<longrightarrow> y \<le> 180", OF _ assms])
  fix f :: "real \<Rightarrow> real option" and a y
  assume ih: "\<And>x y. f x = Some y \<Longrightarrow> x \<le> 180 \<longrightarrow> y \<le> 180"
    and eq: "(if a < - 180 then f (toDouble (a + 360)) else Some a) = Some y"
  show "a \<le> 180 \<longrightarrow> y \<le> 180"
  proof (cases "a < - 180")
    case True
    with eq have "f (toDouble (a + 360)) = Some y" by simp
    moreover from True have "toDouble (a + 360) \<le> 180"
      by (intro toDouble_le_180) simp
    ultimately show ?thesis using ih by blast
  next
    case False
    with eq show ?thesis by simp
  qed
qed

lemma normalizeAngle_down_id: "a \<le> 180 \<Longrightarrow> normalizeAngle_down a = Some a"
  by (subst normalizeAngle_down.simps) simp

lemma normalizeAngle_up_id: "- 180 \<le> a \<Longrightarrow> normalizeAngle_up a = Some a"
  by (subst normalizeAngle_up.simps) simp

lemma normalizeAngle_id: "- 180 \<le> a \<Longrightarrow> a \<le> 180 \<Longrightarrow> normalizeAngle a = Some a"
  by (simp add: normalizeAngle_def normalizeAngle_down_id normalizeAngle_up_id)

lemma normalizeAngle_Some_range:
  assumes "normalizeAngle a = Some r"
  shows "- 180 \<le> r \<and> r \<le> 180"
proof -
  from assms obtain y where y: "normalizeAngle_down a = Some y" and r: "normalizeAngle_up y = Some r"
    by (auto simp: normalizeAngle_def split: option.splits)
  from y have "y \<le> 180" by (rule normalizeAngle_down_le)
  with normalizeAngle_up_le [OF r] have "r \<le> 180" by simp
  moreover from r have "- 180 \<le> r" by (rule normalizeAngle_up_ge)
  ultimately show ?thesis by simp
qed

lemma normalizeAngle_Some_idem:
  assumes "normalizeAngle a = Some r"
  shows "normalizeAngle r = Some r"
  using normalizeAngle_Some_range [OF assms] by (simp add: normalizeAngle_id)

text \<open>From an angle within five degrees of the range both loops run at most once.\<close>

lemma normalizeAngle_returns:
  assumes "- 185 \<le> a" and "a \<le> 185"
  shows "\<exists>r. normalizeAngle a = Some r \<and> - 180 \<le> r \<and> r \<le> 180"
proof -
  consider "a < - 180" | "- 180 \<le> a \<and> a \<le> 180" | "180 < a" by linarith
  then show ?thesis
  proof cases
    case 1
    define t where "t = toDouble (a + 360)"
    have lo: "- 180 \<le> t" unfolding t_def using assms by (intro toDouble_ge_m180) simp
    have hi: "t \<le> 180" unfolding t_def using 1 by (intro toDouble_le_180) simp
    have "normalizeAngle_down a = Some a" using 1 by (simp add: normalizeAngle_down_id)
    moreover have "normalizeAngle_up a = normalizeAngle_up t"
      using 1 by (subst normalizeAngle_up.simps) (simp add: t_def)
    ultimately have "normalizeAngle a = Some t"
      using lo by (simp add: normalizeAngle_def normalizeAngle_up_id)
    with lo hi show ?thesis by simp
  next
    case 2
    then show ?thesis by (simp add: normalizeAngle_id)
  next
    case 3
    define t where "t = toDouble (a - 360)"
    have lo: "- 180 \<le> t" unfolding t_def using 3 by (intro toDouble_ge_m180) simp
    have hi: "t \<le> 180" unfolding t_def using assms by (intro toDouble_le_180) simp
    have "normalizeAngle_down a = normalizeAngle_down t"
      using 3 by (subst normalizeAngle_down.simps) (simp add: t_def)
    then have "normalizeAngle a = Some t"
      using lo hi by (simp add: normalizeAngle_def normalizeAngle_down_id normalizeAngle_up_id)
    with lo hi show ?thesis by simp
  qed
qed

lemma normalizeAngle_270: "normalizeAngle 270 = Some (- 90)"
  by (simp add: normalizeAngle_def normalizeAngle_down.simps [of 270]
      normalizeAngle_down.simps [of "- 90"] normalizeAngle_up.simps [of "- 90"] toDouble_m90)

lemma normalizeAngle_m270: "normalizeAngle (- 270) = Some 90"
  by (simp add: normalizeAngle_def normalizeAngle_down.simps [of "- 270"]
      normalizeAngle_up.simps [of "- 270"] normalizeAngle_up.simps [of 90] toDouble_90)

lemma normalizeAngle_huge: "normalizeAngle 10000000000000000000 = None"
  by (simp add: normalizeAngle_def normalizeAngle_down_stuck)

lemma normalizeAngle_huge_again: "normalizeAngle 9999999999999999645 = None"
proof -
  have "normalizeAngle_down 9999999999999999645 = normalizeAngle_down 10000000000000000000"
    by (subst normalizeAngle_down.simps) (simp add: toDouble_stuck_again)
  then show ?thesis by (simp add: normalizeAngle_def normalizeAngle_down_stuck)
qed

text \<open>
  C8. \<open>normalizeAngle\<close> does not return for every finite input: at \<open>10^19\<close> the first loop
  never advances, and the page reaches that call when \<open>1e19\<close> is typed into the angle field
  and the +5 button is clicked. Whenever \<open>normalizeAngle\<close> does return, its result lies in
  \<open>[-180, 180]\<close> and is a fixed point; \<open>normalizeAngle(270) = -90\<close> and
  \<open>normalizeAngle(-270) = 90\<close>.
\<close>

theorem normalizeAngle_never_returns:
  "normalizeAngle 10000000000000000000 = None
   \<and> rotP5 (angleInput (Some 10000000000000000000) s) = None
   \<and> normalizeAngle 270 = Some (- 90) \<and> normalizeAngle (- 270) = Some 90
   \<and> (\<forall>a r. normalizeAngle a = Some r \<longrightarrow>
         - 180 \<le> r \<and> r \<le> 180 \<and> normalizeAngle r = Some r)"
proof -
  have "angle (overlayState (saveState (angleInput (Some 10000000000000000000) s))) + 5
      = 9999999999999999645"
    by (simp add: saveState_fields angleInput_def Let_def)
  then have "rotP5 (angleInput (Some 10000000000000000000) s) = None"
    unfolding rotP5_def Let_def by (simp only: normalizeAngle_huge_again option.case)
  moreover have "\<forall>a r. normalizeAngle a = Some r \<longrightarrow>
         - 180 \<le> r \<and> r \<le> 180 \<and> normalizeAngle r = Some r"
    using normalizeAngle_Some_range normalizeAngle_Some_idem by blast
  ultimately show ?thesis
    using normalizeAngle_huge normalizeAngle_270 normalizeAngle_m270 by blast
qed

theorem normalizeAngle_never_returns_witness:
  "normalizeAngle 270 = Some (- 90)
   \<and> (- 180 :: real) \<le> - 90 \<and> (- 90 :: real) \<le> 180 \<and> normalizeAngle (- 90) = Some (- 90)"
proof -
  have a: "normalizeAngle 270 = Some (- 90)" by (rule normalizeAngle_270)
  from normalizeAngle_never_returns [of initialApp] have
    "\<forall>a r. normalizeAngle a = Some r \<longrightarrow>
         - 180 \<le> r \<and> r \<le> 180 \<and> normalizeAngle r = Some r"
    by blast
  with a have "- 180 \<le> (- 90 :: real) \<and> (- 90 :: real) \<le> 180 \<and> normalizeAngle (- 90) = Some (- 90)"
    by blast
  with a show ?thesis by blast
qed

subsection \<open>Properties of the grey key\<close>

lemma maxDiff_bounds: "0 \<le> maxDiff r g b \<and> maxDiff r g b < 256"
proof -
  have "\<And>w::byte. \<bar>uint w - 128\<bar> < 256"
  proof -
    fix w :: byte
    have "uint w < 256" using uint_bounded [of w] by simp
    moreover have "0 \<le> uint w" by simp
    ultimately show "\<bar>uint w - 128\<bar> < 256" by linarith
  qed
  then show ?thesis
    by (simp add: maxDiff_def keyR_def keyG_def keyB_def Let_def)
qed

lemma lut_nth: "d < 256 \<Longrightarrow> lut ! d = toUint8Clamped (lut_entry (int d))"
  by (simp add: lut_def)

lemma lut_entry_cases:
  "lut_entry d = (if d \<le> 22 then 0 else if 24 \<le> d then 255 else 128)"
proof -
  consider "d \<le> 22" | "d = 23" | "24 \<le> d" by linarith
  then show ?thesis
  proof cases
    case 2
    have "\<lfloor>(255::real) / 2 + 1 / 2\<rfloor> = 128" by simp
    with 2 show ?thesis
      by (simp add: lut_entry_def tol_def ramp_def Math_round_def)
  qed (simp_all add: lut_entry_def tol_def ramp_def)
qed

lemma uint_lut:
  "d < 256 \<Longrightarrow> uint (lut ! d) = (if d \<le> 22 then 0 else if 24 \<le> d then 255 else 128)"
  by (simp add: lut_nth lut_entry_cases toUint8Clamped_def)

lemma keyLoop_length: "length (keyLoop bs) = length bs"
  by (induction bs rule: keyLoop.induct) simp_all

lemma keyLoop_rgb: "i < length bs \<Longrightarrow> i mod 4 \<noteq> 3 \<Longrightarrow> keyLoop bs ! i = bs ! i"
proof (induction bs arbitrary: i rule: keyLoop.induct)
  case (1 r g b a rest)
  show ?case
  proof (cases "i < 4")
    case True
    with 1(3) have "i = 0 \<or> i = 1 \<or> i = 2" by auto
    then show ?thesis by auto
  next
    case False
    then obtain j where j: "i = j + 4" by (metis add.commute le_Suc_ex not_less)
    with 1 have "keyLoop rest ! j = rest ! j" by simp
    with j show ?thesis by simp
  qed
qed simp_all

lemma keyLoop_alpha:
  "4 * k + 3 < length bs \<Longrightarrow>
   keyLoop bs ! (4 * k + 3) =
     lut ! nat (maxDiff (bs ! (4 * k)) (bs ! (4 * k + 1)) (bs ! (4 * k + 2)))"
proof (induction bs arbitrary: k rule: keyLoop.induct)
  case (1 r g b a rest)
  show ?case
  proof (cases k)
    case 0
    then show ?thesis by simp
  next
    case (Suc m)
    with 1 have "keyLoop rest ! (4 * m + 3) =
      lut ! nat (maxDiff (rest ! (4 * m)) (rest ! (4 * m + 1)) (rest ! (4 * m + 2)))"
      by simp
    with Suc show ?thesis by (simp add: add.commute)
  qed
qed simp_all


lemma lut_mono: "d \<le> d' \<Longrightarrow> d' < 256 \<Longrightarrow> lut ! d \<le> lut ! d'"
  by (simp add: word_le_def uint_lut)

lemma alpha_formula:
  assumes "0 \<le> d"
  shows "(if d \<le> 22 then 0 else if 24 \<le> d then 255 else 128) =
         (if d \<le> 22 then 0 else if 24 \<le> d then 255
          else Math_round (255 * (real_of_int d - 22) / 2))"
proof -
  consider "d \<le> 22" | "d = 23" | "24 \<le> d" by linarith
  then show ?thesis
  proof cases
    case 2
    have "\<lfloor>(255::real) / 2 + 1 / 2\<rfloor> = 128" by simp
    with 2 show ?thesis by (simp add: Math_round_def)
  qed simp_all
qed

lemma uint_toUint8Clamped: "0 \<le> n \<Longrightarrow> n \<le> 255 \<Longrightarrow> uint (toUint8Clamped n) = n"
  by (simp add: toUint8Clamped_def uint_word_of_int take_bit_int_eq_self)

lemma Math_round_of_int: "Math_round (of_int n) = n"
  by (simp add: Math_round_def)

lemma byte_of_uint: "uint (a :: byte) = uint (b :: byte) \<Longrightarrow> a = b"
  by (simp add: word_uint_eq_iff)

lemma uint_byte_le: "uint (c :: byte) \<le> 255"
  using uint_bounded [of c] by simp

lemma toUint8Clamped_uint: "toUint8Clamped (uint (c :: byte)) = c"
  using uint_byte_le [of c] by (simp add: toUint8Clamped_def)

lemma viaCanvas_opaque: "unpremultiply (premultiply c 255) 255 = c"
proof -
  have r: "Math_round (real_of_int (uint x) * real_of_int (uint (255 :: byte)) / 255) = uint x"
    for x :: byte
  proof -
    have "real_of_int (uint x) * real_of_int (uint (255 :: byte)) / 255 = of_int (uint x)"
      by simp
    then show ?thesis by (simp only: Math_round_of_int)
  qed
  have r': "Math_round (real_of_int (uint x) * 255 / real_of_int (uint (255 :: byte))) = uint x"
    for x :: byte
  proof -
    have "real_of_int (uint x) * 255 / real_of_int (uint (255 :: byte)) = of_int (uint x)"
      by simp
    then show ?thesis by (simp only: Math_round_of_int)
  qed
  have "premultiply c 255 = c"
    unfolding premultiply_def by (simp only: r toUint8Clamped_uint)
  moreover have "unpremultiply c 255 = c"
    unfolding unpremultiply_def by (simp only: r' toUint8Clamped_uint) simp
  ultimately show ?thesis by simp
qed

lemma viaCanvas_transparent: "unpremultiply p 0 = 0"
  by (simp add: unpremultiply_def)

lemma viaCanvas_half:
  "\<bar>uint (unpremultiply (premultiply c 128) 128) - uint c\<bar> \<le> 1"
proof -
  define n where "n = uint c"
  have n: "0 \<le> n" "n \<le> 255" using uint_byte_le [of c] by (simp_all add: n_def)
  define p where "p = \<lfloor>real_of_int n * 128 / 255 + 1 / 2\<rfloor>"
  have p_le: "real_of_int p \<le> real_of_int n * 128 / 255 + 1 / 2"
    and p_gt: "real_of_int n * 128 / 255 + 1 / 2 < real_of_int p + 1"
    unfolding p_def by linarith+
  have p0: "0 \<le> p" unfolding p_def using n by simp
  have "real_of_int p \<le> 128 + 1 / 2" using p_le n by simp
  then have p128: "p \<le> 128" by linarith
  have "premultiply c 128 = toUint8Clamped p"
    unfolding premultiply_def Math_round_def p_def n_def by simp
  then have pm: "uint (premultiply c 128) = p"
    using p0 p128 by (simp add: uint_toUint8Clamped)
  define q where "q = \<lfloor>real_of_int p * 255 / 128 + 1 / 2\<rfloor>"
  have q_le: "real_of_int q \<le> real_of_int p * 255 / 128 + 1 / 2"
    and q_gt: "real_of_int p * 255 / 128 + 1 / 2 < real_of_int q + 1"
    unfolding q_def by linarith+
  have q0: "0 \<le> q" unfolding q_def using p0 by simp
  have "real_of_int q \<le> 255 + 1 / 2" using q_le p128 by simp
  then have q255: "q \<le> 255" by linarith
  have "unpremultiply (premultiply c 128) 128 = toUint8Clamped q"
    unfolding unpremultiply_def Math_round_def q_def pm by simp
  then have um: "uint (unpremultiply (premultiply c 128) 128) = q"
    using q0 q255 by (simp add: uint_toUint8Clamped)
  have "real_of_int q < real_of_int n + 2" using q_le p_le by simp
  moreover have "real_of_int n - 2 < real_of_int q" using q_gt p_gt by simp
  ultimately have "\<bar>q - n\<bar> \<le> 1" by linarith
  then show ?thesis by (simp add: um n_def)
qed

lemma canvasRoundTrip_length: "length (canvasRoundTrip bs) = length bs"
  by (induction bs rule: canvasRoundTrip.induct) simp_all

lemma canvasRoundTrip_alpha:
  "4 * k + 3 < length bs \<Longrightarrow> canvasRoundTrip bs ! (4 * k + 3) = bs ! (4 * k + 3)"
proof (induction bs arbitrary: k rule: canvasRoundTrip.induct)
  case (1 r g b a rest)
  show ?case
  proof (cases k)
    case 0
    then show ?thesis by simp
  next
    case (Suc m)
    with 1 have "canvasRoundTrip rest ! (4 * m + 3) = rest ! (4 * m + 3)" by simp
    with Suc show ?thesis by (simp add: add.commute)
  qed
qed simp_all

lemma canvasRoundTrip_channel:
  "4 * k + 3 < length bs \<Longrightarrow> j < 3 \<Longrightarrow>
   canvasRoundTrip bs ! (4 * k + j) =
     unpremultiply (premultiply (bs ! (4 * k + j)) (bs ! (4 * k + 3))) (bs ! (4 * k + 3))"
proof (induction bs arbitrary: k rule: canvasRoundTrip.induct)
  case (1 r g b a rest)
  show ?case
  proof (cases k)
    case 0
    from 1(3) have "j = 0 \<or> j = 1 \<or> j = 2" by auto
    with 0 show ?thesis by auto
  next
    case (Suc m)
    with 1 have "canvasRoundTrip rest ! (4 * m + j) =
        unpremultiply (premultiply (rest ! (4 * m + j)) (rest ! (4 * m + 3))) (rest ! (4 * m + 3))"
      by simp
    with Suc show ?thesis by (simp add: add.commute)
  qed
qed simp_all

lemma applyGreyKey_dims:
  "width (applyGreyKey img) = width img"
  "height (applyGreyKey img) = height img"
  "length (data (applyGreyKey img)) = length (data img)"
  by (simp_all add: applyGreyKey_def canvasRoundTrip_length keyLoop_length)

lemma applyGreyKey_alpha:
  assumes "4 * k + 3 < length (data img)"
  shows "data (applyGreyKey img) ! (4 * k + 3) =
     lut ! nat (maxDiff (data img ! (4 * k)) (data img ! (4 * k + 1)) (data img ! (4 * k + 2)))"
  using assms
  by (simp add: applyGreyKey_def canvasRoundTrip_alpha keyLoop_length keyLoop_alpha)

lemma applyGreyKey_channel:
  assumes "4 * k + 3 < length (data img)" and "j < 3"
  shows "data (applyGreyKey img) ! (4 * k + j) =
     unpremultiply (premultiply (data img ! (4 * k + j)) (data (applyGreyKey img) ! (4 * k + 3)))
       (data (applyGreyKey img) ! (4 * k + 3))"
proof -
  have "(4 * k + j) mod 4 \<noteq> 3" using assms(2) by presburger
  moreover have "4 * k + j < length (data img)" using assms by simp
  ultimately have rgb: "keyLoop (data img) ! (4 * k + j) = data img ! (4 * k + j)"
    by (simp add: keyLoop_rgb)
  have a: "data (applyGreyKey img) ! (4 * k + 3) = keyLoop (data img) ! (4 * k + 3)"
    using assms(1) by (simp add: applyGreyKey_def canvasRoundTrip_alpha keyLoop_length)
  show ?thesis
    unfolding a using assms
    by (simp add: applyGreyKey_def canvasRoundTrip_channel keyLoop_length rgb)
qed


text \<open>
  An image of two pixels: the first is the key colour, the second is 23 away from it.
  The first comes back with all four bytes 0, the second with its green byte changed
  from 130 to 129.
\<close>

lemma applyGreyKey_two_pixels:
  "data (applyGreyKey \<lparr>width = 2, height = 1,
      data = [128, 128, 128, 255, 151, 130, 120, 255 :: byte]\<rparr>)
   = [0, 0, 0, 0, 151, 129, 120, 128]"
proof -
  have k: "keyLoop [128, 128, 128, 255, 151, 130, 120, 255 :: byte]
      = [128, 128, 128, 0, 151, 130, 120, 128]"
    by (simp add: maxDiff_def keyR_def keyG_def keyB_def lut_nth lut_entry_cases
        toUint8Clamped_def)
  have c: "canvasRoundTrip [128, 128, 128, 0, 151, 130, 120, 128 :: byte]
      = [0, 0, 0, 0, 151, 129, 120, 128]"
    by (simp add: premultiply_def unpremultiply_def Math_round_def toUint8Clamped_def)
  have "data (applyGreyKey \<lparr>width = 2, height = 1,
      data = [128, 128, 128, 255, 151, 130, 120, 255 :: byte]\<rparr>)
      = canvasRoundTrip (keyLoop [128, 128, 128, 255, 151, 130, 120, 255 :: byte])"
    unfolding applyGreyKey_def by (simp del: keyLoop.simps canvasRoundTrip.simps)
  then show ?thesis by (simp only: k c)
qed



subsection \<open>The history invariant holds in every reachable state\<close>

lemma history_inv_init: "history_inv initialApp"
  by (simp add: history_inv_def initialApp_def)

lemma history_inv_saveState: "history_inv s \<Longrightarrow> history_inv (saveState s)"
  by (auto simp: history_inv_def saveState_def split: option.splits)

lemma saveState_imgs:
  "overlayImg (saveState s) = overlayImg s"
  "overlayOriginalImg (saveState s) = overlayOriginalImg s"
  "bgImg (saveState s) = bgImg s"
  "overlayState (saveState s) = overlayState s"
  by (simp_all add: saveState_def split: option.splits)

lemma history_inv_overlayState:
  "history_inv (s\<lparr>overlayState := st\<rparr>) = history_inv s"
  by (simp add: history_inv_def)

lemma history_inv_bgLoad: "history_inv s \<Longrightarrow> history_inv (bgLoad img s)"
  by (auto simp: history_inv_def bgLoad_def Let_def split: option.splits)

lemma history_inv_overlayLoad: "history_inv s \<Longrightarrow> history_inv (overlayLoad img s)"
  by (auto simp: history_inv_def overlayLoad_def saveState_def Let_def split: option.splits)

lemma history_inv_removeOverlay: "history_inv (removeOverlay s)"
  by (simp add: history_inv_def removeOverlay_def)

lemma history_inv_newSession: "history_inv (newSession s)"
  by (simp add: history_inv_def newSession_def)

lemma history_inv_smaller: "history_inv s \<Longrightarrow> history_inv (smaller s)"
  using history_inv_saveState [of s]
  by (auto simp: smaller_def Let_def history_inv_def split: option.splits)

lemma history_inv_bigger: "history_inv s \<Longrightarrow> history_inv (bigger s)"
  using history_inv_saveState [of s]
  by (auto simp: bigger_def Let_def history_inv_def split: option.splits)

lemma history_inv_angleInput: "history_inv s \<Longrightarrow> history_inv (angleInput v s)"
  using history_inv_saveState [of s]
  by (simp add: angleInput_def Let_def history_inv_overlayState)

lemma history_inv_rot:
  "history_inv s \<Longrightarrow> history_inv (rotReset s)"
  "history_inv s \<Longrightarrow> history_inv (flipHClick s)"
  "history_inv s \<Longrightarrow> history_inv (flipVClick s)"
  using history_inv_saveState [of s]
  by (simp_all add: rotReset_def flipHClick_def flipVClick_def
      Let_def history_inv_overlayState)

lemma history_inv_rotM5: "history_inv s \<Longrightarrow> rotM5 s = Some s' \<Longrightarrow> history_inv s'"
  using history_inv_saveState [of s]
  by (auto simp: rotM5_def Let_def history_inv_overlayState split: option.splits)

lemma history_inv_rotP5: "history_inv s \<Longrightarrow> rotP5 s = Some s' \<Longrightarrow> history_inv s'"
  using history_inv_saveState [of s]
  by (auto simp: rotP5_def Let_def history_inv_overlayState split: option.splits)

lemma history_inv_cropClick: "history_inv s \<Longrightarrow> history_inv (cropClick s)"
  using history_inv_saveState [of s]
  by (auto simp: cropClick_def history_inv_def)


lemma hist_upd [simp]:
  "hist (s\<lparr>overlayState := st\<rparr>) = hist s"
  "hist (s\<lparr>cropEnd := ce\<rparr>) = hist s"
  "hist (s\<lparr>cropStart := cs\<rparr>) = hist s"
  "hist (s\<lparr>cropping := b\<rparr>) = hist s"
  "hist (s\<lparr>cropMode := b\<rparr>) = hist s"
  "hist (s\<lparr>dragging := b\<rparr>) = hist s"
  "hist (s\<lparr>resizing := b\<rparr>) = hist s"
  "hist (s\<lparr>resizeHandle := i\<rparr>) = hist s"
  "hist (s\<lparr>dragData := d\<rparr>) = hist s"
  "hist (s\<lparr>bgImg := bg\<rparr>) = hist s"
  by (simp_all add: hist_def)

lemma history_inv_hist: "hist s = hist s' \<Longrightarrow> history_inv s = history_inv s'"
  by (simp add: hist_def history_inv_def)

lemma hist_cropDown: "hist (cropDown lx ly s) = hist s"
  unfolding cropDown_def Let_def by (simp split: option.split)

lemma hist_gestureDown: "hist (gestureDown lx ly w h s) = hist s"
  unfolding gestureDown_def by (simp split: option.split)

lemma hist_pointerdown:
  "hist (pointerdown px py s) = hist (saveState s) \<or> hist (pointerdown px py s) = hist s"
  unfolding pointerdown_def Let_def
  by (simp add: hist_cropDown hist_gestureDown split: option.split)

lemma history_inv_pointerdown: "history_inv s \<Longrightarrow> history_inv (pointerdown px py s)"
  using hist_pointerdown [of px py s] history_inv_saveState [of s]
    history_inv_hist [of "pointerdown px py s" "saveState s"]
    history_inv_hist [of "pointerdown px py s" s]
  by blast

lemma hist_cropMove: "hist (cropMove px py cx cy s) = hist s"
  unfolding cropMove_def Let_def by (rule hist_upd)

lemma hist_resizeMove: "hist (resizeMove px py ov bg cx cy a s) = hist s"
  unfolding resizeMove_def Let_def by (rule hist_upd)

lemma hist_dragMove: "hist (dragMove px py bg w h a s) = hist s"
  unfolding dragMove_def Let_def by (rule hist_upd)

lemma hist_pointermove: "hist (pointermove px py s) = hist s"
  unfolding pointermove_def Let_def
  by (simp add: hist_cropMove hist_resizeMove hist_dragMove split: option.split)

lemma history_inv_pointermove: "history_inv s \<Longrightarrow> history_inv (pointermove px py s)"
  using hist_pointermove [of px py s] history_inv_hist by blast

lemma hist_cropOnload:
  "hist (cropOnload newImg ccx ccy ow oh wc hc s) =
     (Some newImg, Some newImg, undoStack s, redoStack s)"
  unfolding cropOnload_def Let_def
  by (simp add: hist_def split: option.split)

lemma performCrop_shape:
  "\<exists>c img a b ow oh wc hc.
     performCrop s = s
     \<or> (overlayOriginalImg s \<noteq> None
        \<and> performCrop s =
            (if c then s\<lparr>cropStart := None, cropEnd := None\<rparr>
             else cropOnload img a b ow oh wc hc s))"
proof (cases "cropStart s")
  case None
  then show ?thesis by (simp add: performCrop_def)
next
  case cs: (Some cs)
  show ?thesis
  proof (cases "cropEnd s")
    case None
    with cs show ?thesis by (simp add: performCrop_def)
  next
    case ce: (Some ce)
    show ?thesis
    proof (cases "overlayOriginalImg s")
      case None
      with cs ce show ?thesis by (simp add: performCrop_def)
    next
      case orig: (Some orig)
      have ne: "overlayOriginalImg s \<noteq> None" using orig by simp
      show ?thesis
        unfolding performCrop_def Let_def
        apply (simp only: cs ce orig option.case)
        apply (intro exI disjI2 conjI)
         apply simp
        apply (rule refl)
        done
    qed
  qed
qed

lemma hist_performCrop:
  "hist (performCrop s) = hist s
   \<or> (\<exists>img. hist (performCrop s) = (Some img, Some img, undoStack s, redoStack s)
         \<and> overlayOriginalImg s \<noteq> None)"
proof -
  from performCrop_shape [of s] obtain c img a b ow oh wc hc where
    "performCrop s = s
     \<or> (overlayOriginalImg s \<noteq> None
        \<and> performCrop s =
            (if c then s\<lparr>cropStart := None, cropEnd := None\<rparr>
             else cropOnload img a b ow oh wc hc s))"
    by blast
  then show ?thesis
    by (cases c) (auto simp: hist_cropOnload)
qed

lemma history_inv_performCrop: "history_inv s \<Longrightarrow> history_inv (performCrop s)"
  using hist_performCrop [of s]
  by (auto simp: hist_def history_inv_def)

lemma history_inv_pointerup: "history_inv s \<Longrightarrow> history_inv (pointerup s)"
proof -
  assume inv: "history_inv s"
  then have "history_inv (s\<lparr>cropping := False, cropMode := False\<rparr>)"
    by (simp add: history_inv_def)
  then have "history_inv (performCrop (s\<lparr>cropping := False, cropMode := False\<rparr>))"
    by (rule history_inv_performCrop)
  moreover have "history_inv (s\<lparr>dragging := False\<rparr>)"
    "history_inv (s\<lparr>resizing := False, resizeHandle := - 1\<rparr>)"
    "history_inv (s\<lparr>dragging := False, resizing := False, resizeHandle := - 1\<rparr>)"
    using inv by (simp_all add: history_inv_def)
  ultimately show ?thesis using inv by (simp add: pointerup_def Let_def)
qed

lemma history_inv_undo: "history_inv s \<Longrightarrow> history_inv (undo s)"
proof (cases "undoStack s = []")
  case True
  then show "history_inv s \<Longrightarrow> history_inv (undo s)" by (simp add: undo_def)
next
  case False
  assume inv: "history_inv s"
  from False obtain us p where us: "undoStack s = us @ [p]"
    by (meson rev_exhaust)
  from inv us obtain a st where p: "p = Snapshot a a st"
    by (cases p) (auto simp: history_inv_def)
  from inv False obtain i where i: "overlayImg s = Some i" "overlayOriginalImg s = Some i"
    by (cases "overlayImg s") (auto simp: history_inv_def)
  show "history_inv (undo s)"
    using inv us p i
    by (simp add: undo_def Let_def restore_def currentSnapshot_def history_inv_def)
qed

lemma history_inv_redo: "history_inv s \<Longrightarrow> history_inv (redo s)"
proof (cases "redoStack s = []")
  case True
  then show "history_inv s \<Longrightarrow> history_inv (redo s)" by (simp add: redo_def)
next
  case False
  assume inv: "history_inv s"
  from False obtain rs p where rs: "redoStack s = rs @ [p]"
    by (meson rev_exhaust)
  from inv rs obtain a st where p: "p = Snapshot a a st"
    by (cases p) (auto simp: history_inv_def)
  from inv False obtain i where i: "overlayImg s = Some i" "overlayOriginalImg s = Some i"
    by (cases "overlayImg s") (auto simp: history_inv_def)
  show "history_inv (redo s)"
    using inv rs p i
    by (simp add: redo_def Let_def restore_def currentSnapshot_def history_inv_def)
qed

lemma history_inv_step:
  "history_inv s \<Longrightarrow> step s e = Some s' \<Longrightarrow> history_inv s'"
  by (cases e)
     (auto simp: history_inv_bgLoad history_inv_overlayLoad history_inv_removeOverlay
        history_inv_newSession history_inv_smaller history_inv_bigger history_inv_angleInput
        history_inv_rot history_inv_cropClick history_inv_pointerdown history_inv_pointermove
        history_inv_pointerup history_inv_undo history_inv_redo
        intro: history_inv_rotM5 history_inv_rotP5)

lemma reachable_history_inv: "reachable s \<Longrightarrow> history_inv s"
  by (induction rule: reachable.induct) (auto simp: history_inv_init intro: history_inv_step)

lemma undo_redo_once:
  assumes inv: "history_inv s" and ne: "undoStack s \<noteq> []"
  shows "redo (undo s) = s"
proof -
  from ne obtain us p where us: "undoStack s = us @ [p]"
    by (meson rev_exhaust)
  from inv us obtain a st where p: "p = Snapshot a a st"
    by (cases p) (auto simp: history_inv_def)
  from inv ne obtain i where i: "overlayImg s = Some i" "overlayOriginalImg s = Some i"
    by (cases "overlayImg s") (auto simp: history_inv_def)
  show ?thesis
    using us p i
    by (simp add: undo_def redo_def Let_def restore_def currentSnapshot_def)
qed

lemma undoStack_undo: "undoStack (undo s) = butlast (undoStack s)"
  by (simp add: undo_def Let_def restore_def split: snapshot.splits)

lemma undo_redo_depth:
  "history_inv s \<Longrightarrow> n \<le> length (undoStack s) \<Longrightarrow> (redo ^^ n) ((undo ^^ n) s) = s"
proof (induction n arbitrary: s)
  case 0
  then show ?case by simp
next
  case (Suc n)
  from Suc.prems have ne: "undoStack s \<noteq> []" by auto
  have inv': "history_inv (undo s)" using Suc.prems(1) by (rule history_inv_undo)
  have len: "n \<le> length (undoStack (undo s))"
    using Suc.prems(2) by (simp add: undoStack_undo)
  have "(redo ^^ Suc n) ((undo ^^ Suc n) s) = redo ((redo ^^ n) ((undo ^^ n) (undo s)))"
    by (simp add: funpow_swap1)
  also have "\<dots> = redo (undo s)" using Suc.IH [OF inv' len] by simp
  also have "\<dots> = s" using Suc.prems(1) ne by (rule undo_redo_once)
  finally show ?case .
qed

lemma undo_redo_alternating:
  "history_inv s \<Longrightarrow> undoStack s \<noteq> [] \<Longrightarrow> ((redo \<circ> undo) ^^ n) s = s"
  by (induction n) (simp_all add: undo_redo_once)


subsection \<open>The example states, evaluated\<close>

lemma exampleOverlay_dims [simp]:
  "width exampleOverlay = 100" "height exampleOverlay = 50"
  by (simp_all add: exampleOverlay_def applyGreyKey_dims exampleRaw_def)

lemma exampleBg_dims [simp]:
  "width exampleBg = 200" "height exampleBg = 100"
  by (simp_all add: exampleBg_def)

lemma loadedApp_eq:
  "loadedApp =
     \<lparr>bgImg = Some exampleBg, overlayImg = Some exampleOverlay,
      overlayOriginalImg = Some exampleOverlay,
      overlayState = loadedState,
      dragging = False, dragData = (0, 0), resizing = False, resizeHandle = - 1,
      cropMode = False, cropping = False, cropStart = None, cropEnd = None,
      undoStack = [Snapshot exampleOverlay exampleOverlay loadedState], redoStack = []\<rparr>"
  unfolding loadedApp_def
  by (simp add: bgLoad_def overlayLoad_def initialApp_def initialOverlayState_def
      saveState_def Let_def loadedState_def exampleOverlay_def [symmetric])

lemma reachable_loadedApp: "reachable loadedApp"
proof -
  have "reachable (bgLoad exampleBg initialApp)"
    by (rule reachable_step [OF reachable_init, of "BgLoad exampleBg"]) simp
  then show ?thesis
    unfolding loadedApp_def
    by (rule reachable_step [of _ "OverlayLoad exampleRaw"]) simp
qed

lemma rotP5_loadedApp: "rotP5 loadedApp = Some rotatedApp"
proof -
  have "angle (overlayState (saveState loadedApp)) + 5 = 5"
    by (simp add: saveState_fields loadedApp_eq loadedState_def)
  moreover have "normalizeAngle 5 = Some 5" by (simp add: normalizeAngle_id)
  ultimately show ?thesis
    unfolding rotP5_def rotatedApp_def Let_def by (simp only: option.case)
qed

lemma reachable_rotatedApp: "reachable rotatedApp"
  by (rule reachable_step [OF reachable_loadedApp, of RotP5]) (simp add: rotP5_loadedApp)

lemma undoStack_rotatedApp:
  "undoStack rotatedApp = [Snapshot exampleOverlay exampleOverlay loadedState,
      Snapshot exampleOverlay exampleOverlay loadedState]"
  unfolding rotatedApp_def loadedApp_eq
  by (simp add: saveState_def)

lemma loadedApp_fields:
  "overlayImg loadedApp = Some exampleOverlay"
  "overlayOriginalImg loadedApp = Some exampleOverlay"
  "bgImg loadedApp = Some exampleBg"
  "overlayState loadedApp = loadedState"
  "cropMode loadedApp = False"
  "undoStack loadedApp = [Snapshot exampleOverlay exampleOverlay loadedState]"
  by (simp_all add: loadedApp_eq)

lemma cropArmedApp_eq:
  "cropArmedApp =
     loadedApp\<lparr>cropMode := True,
       undoStack := [Snapshot exampleOverlay exampleOverlay loadedState,
                     Snapshot exampleOverlay exampleOverlay loadedState]\<rparr>"
  unfolding cropArmedApp_def
  by (simp add: cropClick_def saveState_def loadedApp_eq)

lemma cropStartedApp_eq:
  "cropStartedApp =
     loadedApp\<lparr>cropMode := True, cropping := True,
       cropStart := Some (0, 0), cropEnd := Some (0, 0),
       undoStack := [Snapshot exampleOverlay exampleOverlay loadedState,
                     Snapshot exampleOverlay exampleOverlay loadedState,
                     Snapshot exampleOverlay exampleOverlay loadedState]\<rparr>"
  unfolding cropStartedApp_def cropArmedApp_eq
  by (simp add: pointerdown_def cropDown_def saveState_def loadedApp_eq loadedState_def Let_def)

lemma cropDraggedApp_eq:
  "cropDraggedApp = cropStartedApp\<lparr>cropEnd := Some (20, 10)\<rparr>"
  unfolding cropDraggedApp_def cropStartedApp_eq
  by (simp add: pointermove_def cropMove_def loadedApp_eq loadedState_def Let_def)

lemma dragStartedApp_eq:
  "dragStartedApp =
     loadedApp\<lparr>dragging := True, dragData := (10, 5),
       undoStack := [Snapshot exampleOverlay exampleOverlay loadedState,
                     Snapshot exampleOverlay exampleOverlay loadedState]\<rparr>"
  unfolding dragStartedApp_def
  by (simp add: pointerdown_def gestureDown_def corners_def saveState_def loadedApp_eq
      loadedState_def Let_def)

lemma resizeStartedApp_eq:
  "resizeStartedApp =
     loadedApp\<lparr>resizing := True, resizeHandle := 2,
       undoStack := [Snapshot exampleOverlay exampleOverlay loadedState,
                     Snapshot exampleOverlay exampleOverlay loadedState]\<rparr>"
  unfolding resizeStartedApp_def
  by (simp add: pointerdown_def gestureDown_def corners_def saveState_def loadedApp_eq
      loadedState_def Let_def)

lemma exampleOverlay_length:
  "length (data exampleOverlay) = 4 * width exampleOverlay * height exampleOverlay"
  by (simp add: exampleOverlay_def applyGreyKey_dims exampleRaw_def)

subsection \<open>Pointer down\<close>

lemma gestureDown_miss:
  assumes "\<not> (\<bar>lx - (- w / 2)\<bar> \<le> 10 \<and> \<bar>ly - (- h / 2)\<bar> \<le> 10)"
    and "\<not> (\<bar>lx - w / 2\<bar> \<le> 10 \<and> \<bar>ly - (- h / 2)\<bar> \<le> 10)"
    and "\<not> (\<bar>lx - w / 2\<bar> \<le> 10 \<and> \<bar>ly - h / 2\<bar> \<le> 10)"
    and "\<not> (\<bar>lx - (- w / 2)\<bar> \<le> 10 \<and> \<bar>ly - h / 2\<bar> \<le> 10)"
    and "\<not> (\<bar>lx\<bar> \<le> w / 2 \<and> \<bar>ly\<bar> \<le> h / 2)"
  shows "gestureDown lx ly w h s = s"
proof -
  have "handleLoop (corners w h) 0 lx ly = None"
    using assms(1-4) by (simp add: corners_def Let_def)
  with assms(5) show ?thesis by (auto simp: gestureDown_def)
qed

subsection \<open>Pointer move\<close>

lemma dragData_upd:
  "dragData (s\<lparr>overlayState := st\<rparr>) = dragData s"
  "dragData (s\<lparr>cropEnd := ce\<rparr>) = dragData s"
  by simp_all

lemma dragData_pointermove: "dragData (pointermove px py s) = dragData s"
proof -
  have "\<And>a b c d. dragData (cropMove a b c d s) = dragData s"
    unfolding cropMove_def Let_def by (rule dragData_upd)
  moreover have "\<And>a b c d e f g. dragData (resizeMove a b c d e f g s) = dragData s"
    unfolding resizeMove_def Let_def by (rule dragData_upd)
  moreover have "\<And>a b c d e f. dragData (dragMove a b c d e f s) = dragData s"
    unfolding dragMove_def Let_def by (rule dragData_upd)
  ultimately show ?thesis
    unfolding pointermove_def Let_def by (simp split: option.split)
qed

lemma clamp_scale_eq:
  "(if min a m < l then l else min a m) = max l (min m (a::real))"
  by (simp add: max_def min_def)

lemma resizeMove_eq:
  "resizeMove px py ov bg cx cy angleRad s =
     (let localX = (px - cx) * cos (- angleRad) - (py - cy) * sin (- angleRad);
          localY = (px - cx) * sin (- angleRad) + (py - cy) * cos (- angleRad);
          maxScale = min (real (width bg) / real (width ov)) (real (height bg) / real (height ov));
          newScale = max 0.05 (min maxScale
                       (min (2 * \<bar>localX\<bar> / real (width ov)) (2 * \<bar>localY\<bar> / real (height ov))))
      in s\<lparr>overlayState :=
             (overlayState s)\<lparr>scale := newScale,
                pos_x := max 0 (min (cx - real (width ov) * newScale / 2)
                                     (real (width bg) - real (width ov) * newScale)),
                pos_y := max 0 (min (cy - real (height ov) * newScale / 2)
                                     (real (height bg) - real (height ov) * newScale))\<rparr>\<rparr>)"
  unfolding resizeMove_def Let_def
  by (simp only: clamp_scale_eq)

lemma aspect_kept:
  fixes W H ns :: real
  assumes "0.05 \<le> ns"
  shows "(W * ns) / (H * ns) = W / H"
proof -
  have "ns \<noteq> 0" using assms by auto
  then show ?thesis by simp
qed

lemma clamp_scale_range:
  fixes m a :: real
  shows "0.05 \<le> max 0.05 (min m a)"
    and "0.05 \<le> m \<Longrightarrow> max 0.05 (min m a) \<le> m"
  by simp_all

subsection \<open>Cropping\<close>

lemma drop_concat_uniform:
  "\<forall>r \<in> set rows. length r = n \<Longrightarrow> j \<le> length rows \<Longrightarrow>
   drop (j * n) (concat rows) = concat (drop j rows)"
proof (induction rows arbitrary: j)
  case Nil
  then show ?case by simp
next
  case (Cons r rs)
  show ?case
  proof (cases j)
    case 0
    then show ?thesis by simp
  next
    case (Suc k)
    with Cons.prems have "drop (k * n) (concat rs) = concat (drop k rs)"
      by (intro Cons.IH) auto
    moreover have "length r = n" using Cons.prems by simp
    ultimately show ?thesis using Suc by simp
  qed
qed

lemma row_bound:
  fixes W H :: nat
  assumes "u1 + wc \<le> W" and "v < H"
  shows "4 * (v * W + u1) + 4 * wc \<le> 4 * W * H"
proof -
  have "v * W + u1 + wc \<le> v * W + W" using assms(1) by simp
  also have "\<dots> = Suc v * W" by simp
  also have "\<dots> \<le> H * W" using assms(2) by (intro mult_le_mono1) simp
  finally show ?thesis by (simp add: mult.commute)
qed

lemma cropRaster_dims:
  "width (cropRaster img u1 v1 wc hc) = wc" "height (cropRaster img u1 v1 wc hc) = hc"
  by (simp_all add: cropRaster_def)

lemma cropRaster_pixel:
  assumes len: "length (data img) = 4 * width img * height img"
    and u: "u1 + wc \<le> width img" and v: "v1 + hc \<le> height img"
    and i: "i < wc" and j: "j < hc"
  shows "pixelAt (cropRaster img u1 v1 wc hc) i j = pixelAt img (u1 + i) (v1 + j)"
proof -
  define row where
    "row = (\<lambda>v. take (4 * wc) (drop (4 * (v * width img + u1)) (data img)))"
  define rows where "rows = map row [v1..<v1 + hc]"
  have row_len: "length (row v) = 4 * wc" if "v < height img" for v
    using row_bound [OF u that] len by (simp add: row_def)
  have uniform: "\<forall>r \<in> set rows. length r = 4 * wc"
    using v by (auto simp: rows_def row_len)
  have jlen: "j < length rows" using j by (simp add: rows_def)
  have nth: "rows ! j = row (v1 + j)" using j by (simp add: rows_def)
  have "drop (4 * (j * wc + i)) (concat rows) = drop (4 * i) (drop (j * (4 * wc)) (concat rows))"
    by (simp add: algebra_simps)
  also have "\<dots> = drop (4 * i) (concat (drop j rows))"
    using uniform jlen by (simp add: drop_concat_uniform)
  also have "\<dots> = drop (4 * i) (rows ! j @ concat (drop (Suc j) rows))"
    using jlen by (simp add: Cons_nth_drop_Suc [symmetric])
  also have "\<dots> = drop (4 * i) (row (v1 + j)) @ concat (drop (Suc j) rows)"
    using i j v by (simp add: nth row_len)
  finally have "take 4 (drop (4 * (j * wc + i)) (concat rows)) =
      take 4 (drop (4 * i) (row (v1 + j)))"
    using i j v by (simp add: row_len)
  also have "\<dots> = take 4 (drop (4 * i) (drop (4 * ((v1 + j) * width img + u1)) (data img)))"
    using i by (simp add: row_def drop_take min_def)
  also have "\<dots> = take 4 (drop (4 * ((v1 + j) * width img + (u1 + i))) (data img))"
    by (simp add: algebra_simps)
  finally show ?thesis
    by (simp add: pixelAt_def cropRaster_def rows_def row_def)
qed

lemma cropRaster_length:
  assumes len: "length (data img) = 4 * width img * height img"
    and u: "u1 + wc \<le> width img" and v: "v1 + hc \<le> height img"
  shows "length (data (cropRaster img u1 v1 wc hc)) = 4 * wc * hc"
proof -
  define row where
    "row = (\<lambda>v. take (4 * wc) (drop (4 * (v * width img + u1)) (data img)))"
  have row_len: "length (row x) = 4 * wc" if "x \<in> set [v1..<v1 + hc]" for x
  proof -
    from that v have "x < height img" by simp
    from row_bound [OF u this] len show ?thesis by (simp add: row_def)
  qed
  have "length (concat (map row [v1..<v1 + hc])) = sum_list (map (length \<circ> row) [v1..<v1 + hc])"
    by (simp add: length_concat)
  also have "map (length \<circ> row) [v1..<v1 + hc] = map (\<lambda>x. 4 * wc) [v1..<v1 + hc]"
    by (rule map_cong) (simp_all add: row_len)
  also have "sum_list (map (\<lambda>x. 4 * wc) [v1..<v1 + hc]) = 4 * wc * hc"
    by (simp add: sum_list_triv)
  finally show ?thesis by (simp add: cropRaster_def row_def)
qed

lemma cropOnload_eq:
  assumes "bgImg s = Some bg"
  shows "cropOnload newImg cropCenterX cropCenterY oldWidth oldHeight wCrop hCrop s =
     s\<lparr>overlayImg := Some newImg, overlayOriginalImg := Some newImg,
       overlayState := (overlayState s)
         \<lparr>pos_x := max 0 (min
             (pos_x (overlayState s) + oldWidth * scale (overlayState s) / 2
              + (cropCenterX * scale (overlayState s) * cos (angle (overlayState s) * pi / 180)
                 - cropCenterY * scale (overlayState s) * sin (angle (overlayState s) * pi / 180))
              - real_of_int wCrop * scale (overlayState s) / 2)
             (real (width bg) - real_of_int wCrop * scale (overlayState s))),
          pos_y := max 0 (min
             (pos_y (overlayState s) + oldHeight * scale (overlayState s) / 2
              + (cropCenterX * scale (overlayState s) * sin (angle (overlayState s) * pi / 180)
                 + cropCenterY * scale (overlayState s) * cos (angle (overlayState s) * pi / 180))
              - real_of_int hCrop * scale (overlayState s) / 2)
             (real (height bg) - real_of_int hCrop * scale (overlayState s)))\<rparr>,
       cropStart := None, cropEnd := None\<rparr>"
proof -
  have a: "bgImg (s\<lparr>overlayImg := Some newImg, overlayOriginalImg := Some newImg\<rparr>) = Some bg"
    using assms by simp
  have b: "overlayState (s\<lparr>overlayImg := Some newImg, overlayOriginalImg := Some newImg\<rparr>)
      = overlayState s"
    by simp
  show ?thesis
    unfolding cropOnload_def Let_def
    by (simp only: a b option.case)
qed

lemma crop_bounds:
  fixes a b :: int and W :: nat
  assumes "0 < min (int W) b - max 0 a"
  shows "nat (max 0 a) + nat (min (int W) b - max 0 a) \<le> W"
  using assms by linarith

text \<open>
  C1. \<open>undo\<close> does nothing on an empty undo stack. Otherwise it pops the top of the undo
  stack, pushes onto the redo stack the live state (the null entry when an image reference
  is null) and installs the popped entry. In every reachable state, \<open>undo\<close> followed by
  \<open>redo\<close> gives back the state as it was, so the overlay image and every field of
  \<open>overlayState\<close>; the same holds for \<open>n\<close> undos followed by \<open>n\<close> redos and for \<open>n\<close> rounds of
  undo, redo, for every \<open>n\<close> up to the size of the undo stack.
\<close>

theorem undo_redo_roundtrip:
  "(undoStack s = [] \<longrightarrow> undo s = s)
   \<and> (undoStack s \<noteq> [] \<longrightarrow>
        undoStack (undo s) = butlast (undoStack s)
        \<and> redoStack (undo s) = redoStack s @
            [case overlayImg s of
               None \<Rightarrow> NullSnapshot
             | Some ov \<Rightarrow>
                 (case overlayOriginalImg s of
                    None \<Rightarrow> NullSnapshot
                  | Some orig \<Rightarrow> Snapshot ov orig (overlayState s))]
        \<and> (case last (undoStack s) of
              Snapshot img orig st \<Rightarrow>
                overlayImg (undo s) = Some img \<and> overlayOriginalImg (undo s) = Some img
                \<and> overlayState (undo s) = st
            | NullSnapshot \<Rightarrow>
                overlayImg (undo s) = None \<and> overlayOriginalImg (undo s) = None
                \<and> overlayState (undo s) = overlayState s))
   \<and> (reachable s \<and> undoStack s \<noteq> [] \<longrightarrow> redo (undo s) = s)
   \<and> (reachable s \<and> n \<le> length (undoStack s) \<longrightarrow>
        (redo ^^ n) ((undo ^^ n) s) = s \<and> ((redo \<circ> undo) ^^ n) s = s)"
proof -
  have empty: "undoStack s = [] \<longrightarrow> undo s = s"
    by (simp add: undo_def)
  have pushpop: "undoStack s \<noteq> [] \<longrightarrow>
        undoStack (undo s) = butlast (undoStack s)
        \<and> redoStack (undo s) = redoStack s @
            [case overlayImg s of
               None \<Rightarrow> NullSnapshot
             | Some ov \<Rightarrow>
                 (case overlayOriginalImg s of
                    None \<Rightarrow> NullSnapshot
                  | Some orig \<Rightarrow> Snapshot ov orig (overlayState s))]
        \<and> (case last (undoStack s) of
              Snapshot img orig st \<Rightarrow>
                overlayImg (undo s) = Some img \<and> overlayOriginalImg (undo s) = Some img
                \<and> overlayState (undo s) = st
            | NullSnapshot \<Rightarrow>
                overlayImg (undo s) = None \<and> overlayOriginalImg (undo s) = None
                \<and> overlayState (undo s) = overlayState s)"
    by (simp add: undo_def Let_def restore_def currentSnapshot_def split: snapshot.split)
  have once: "reachable s \<and> undoStack s \<noteq> [] \<longrightarrow> redo (undo s) = s"
    using reachable_history_inv undo_redo_once by blast
  have depth: "reachable s \<and> n \<le> length (undoStack s) \<longrightarrow>
        (redo ^^ n) ((undo ^^ n) s) = s \<and> ((redo \<circ> undo) ^^ n) s = s"
  proof (intro impI, elim conjE)
    assume r: "reachable s" and n: "n \<le> length (undoStack s)"
    from r have inv: "history_inv s" by (rule reachable_history_inv)
    have a: "(redo ^^ n) ((undo ^^ n) s) = s" using inv n by (rule undo_redo_depth)
    have b: "((redo \<circ> undo) ^^ n) s = s"
    proof (cases "undoStack s = []")
      case True
      with n show ?thesis by simp
    next
      case False
      with inv show ?thesis by (rule undo_redo_alternating)
    qed
    from a b show "(redo ^^ n) ((undo ^^ n) s) = s \<and> ((redo \<circ> undo) ^^ n) s = s" ..
  qed
  from empty pushpop once depth show ?thesis by blast
qed

theorem undo_redo_roundtrip_witness:
  "undoStack initialApp = [] \<and> undo initialApp = initialApp
   \<and> reachable rotatedApp \<and> undoStack rotatedApp \<noteq> []
   \<and> undoStack (undo rotatedApp) = butlast (undoStack rotatedApp)
   \<and> redo (undo rotatedApp) = rotatedApp
   \<and> 2 \<le> length (undoStack rotatedApp)
   \<and> (redo ^^ 2) ((undo ^^ 2) rotatedApp) = rotatedApp
   \<and> ((redo \<circ> undo) ^^ 2) rotatedApp = rotatedApp"
proof -
  have e: "undoStack initialApp = []" by (simp add: initialApp_def)
  have r: "reachable rotatedApp" by (rule reachable_rotatedApp)
  have ne: "undoStack rotatedApp \<noteq> []" by (simp add: undoStack_rotatedApp)
  have len: "2 \<le> length (undoStack rotatedApp)" by (simp add: undoStack_rotatedApp)
  from undo_redo_roundtrip [of initialApp 0] e have "undo initialApp = initialApp"
    by blast
  moreover from undo_redo_roundtrip [of rotatedApp 2] r ne len
  have "undoStack (undo rotatedApp) = butlast (undoStack rotatedApp)"
    "redo (undo rotatedApp) = rotatedApp"
    "(redo ^^ 2) ((undo ^^ 2) rotatedApp) = rotatedApp"
    "((redo \<circ> undo) ^^ 2) rotatedApp = rotatedApp"
    by blast+
  ultimately show ?thesis using e r ne len by blast
qed

text \<open>
  C9. In every reachable state \<open>overlayImg\<close> and \<open>overlayOriginalImg\<close> hold the same image,
  or both are null.
\<close>

theorem single_raster_lineage: "reachable s \<Longrightarrow> overlayImg s = overlayOriginalImg s"
  using reachable_history_inv [of s] by (simp add: history_inv_def)

theorem single_raster_lineage_witness:
  "reachable loadedApp \<and> overlayImg loadedApp = overlayOriginalImg loadedApp"
  using single_raster_lineage [OF reachable_loadedApp] reachable_loadedApp by simp

text \<open>
  C10. In a reachable state with an overlay and a background loaded, every \<open>pointerdown\<close>
  pushes the snapshot of the state before the gesture onto the undo stack and empties the
  redo stack. When crop mode is off and the pointer is within 10 pixels of no corner of the
  box and not inside the box, that is all it does: no gesture starts, \<open>overlayState\<close> is
  unchanged, the redo history is gone and the undo stack has one more entry, a copy of the
  current state.
\<close>

theorem pointerdown_saves_state:
  assumes "reachable s" and "overlayImg s = Some ov" and "bgImg s = Some bg"
  shows "undoStack (pointerdown px py s) = undoStack s @ [Snapshot ov ov (overlayState s)]
     \<and> redoStack (pointerdown px py s) = []
     \<and> (let st = overlayState s;
             w = real (width ov) * \<bar>scale st\<bar>;
             h = real (height ov) * \<bar>scale st\<bar>;
             cx = pos_x st + w / 2;
             cy = pos_y st + h / 2;
             dx = px - cx;
             dy = py - cy;
             angleRad = (- angle st * pi) / 180;
             localX = dx * cos angleRad - dy * sin angleRad;
             localY = dx * sin angleRad + dy * cos angleRad
         in \<not> cropMode s
            \<and> \<not> (\<bar>localX - (- w / 2)\<bar> \<le> 10 \<and> \<bar>localY - (- h / 2)\<bar> \<le> 10)
            \<and> \<not> (\<bar>localX - w / 2\<bar> \<le> 10 \<and> \<bar>localY - (- h / 2)\<bar> \<le> 10)
            \<and> \<not> (\<bar>localX - w / 2\<bar> \<le> 10 \<and> \<bar>localY - h / 2\<bar> \<le> 10)
            \<and> \<not> (\<bar>localX - (- w / 2)\<bar> \<le> 10 \<and> \<bar>localY - h / 2\<bar> \<le> 10)
            \<and> \<not> (\<bar>localX\<bar> \<le> w / 2 \<and> \<bar>localY\<bar> \<le> h / 2)
            \<longrightarrow> pointerdown px py s =
                  s\<lparr>undoStack := undoStack s @ [Snapshot ov ov (overlayState s)],
                    redoStack := []\<rparr>)"
proof -
  from assms(1) have "history_inv s" by (rule reachable_history_inv)
  with assms(2) have orig: "overlayOriginalImg s = Some ov"
    by (simp add: history_inv_def)
  have save: "saveState s =
      s\<lparr>undoStack := undoStack s @ [Snapshot ov ov (overlayState s)], redoStack := []\<rparr>"
    by (simp add: saveState_def assms(2) orig)
  have h: "hist (pointerdown px py s) = hist (saveState s)"
  proof (cases "cropMode (saveState s)")
    case True
    show ?thesis
      unfolding pointerdown_def Let_def
      by (simp only: assms(2,3) option.case True if_True hist_cropDown)
  next
    case False
    show ?thesis
      unfolding pointerdown_def Let_def
      by (simp only: assms(2,3) option.case False if_False hist_gestureDown)
  qed
  have stacks: "undoStack (pointerdown px py s) =
        undoStack s @ [Snapshot ov ov (overlayState s)]"
      "redoStack (pointerdown px py s) = []"
    using h by (simp_all add: hist_def save)
  have miss: "let st = overlayState s;
             w = real (width ov) * \<bar>scale st\<bar>;
             h = real (height ov) * \<bar>scale st\<bar>;
             cx = pos_x st + w / 2;
             cy = pos_y st + h / 2;
             dx = px - cx;
             dy = py - cy;
             angleRad = (- angle st * pi) / 180;
             localX = dx * cos angleRad - dy * sin angleRad;
             localY = dx * sin angleRad + dy * cos angleRad
         in \<not> cropMode s
            \<and> \<not> (\<bar>localX - (- w / 2)\<bar> \<le> 10 \<and> \<bar>localY - (- h / 2)\<bar> \<le> 10)
            \<and> \<not> (\<bar>localX - w / 2\<bar> \<le> 10 \<and> \<bar>localY - (- h / 2)\<bar> \<le> 10)
            \<and> \<not> (\<bar>localX - w / 2\<bar> \<le> 10 \<and> \<bar>localY - h / 2\<bar> \<le> 10)
            \<and> \<not> (\<bar>localX - (- w / 2)\<bar> \<le> 10 \<and> \<bar>localY - h / 2\<bar> \<le> 10)
            \<and> \<not> (\<bar>localX\<bar> \<le> w / 2 \<and> \<bar>localY\<bar> \<le> h / 2)
            \<longrightarrow> pointerdown px py s =
                  s\<lparr>undoStack := undoStack s @ [Snapshot ov ov (overlayState s)],
                    redoStack := []\<rparr>"
    unfolding Let_def
  proof (intro impI, elim conjE)
    assume nc: "\<not> cropMode s"
    then have nc': "cropMode (saveState s) = False" by (simp add: saveState_fields)
    assume c: "\<not> (\<bar>((px - (pos_x (overlayState s) + real (width ov) * \<bar>scale (overlayState s)\<bar> / 2)) *
             cos (- angle (overlayState s) * pi / 180) -
             (py - (pos_y (overlayState s) + real (height ov) * \<bar>scale (overlayState s)\<bar> / 2)) *
             sin (- angle (overlayState s) * pi / 180)) -
            (- (real (width ov) * \<bar>scale (overlayState s)\<bar>) / 2)\<bar> \<le> 10 \<and>
            \<bar>((px - (pos_x (overlayState s) + real (width ov) * \<bar>scale (overlayState s)\<bar> / 2)) *
             sin (- angle (overlayState s) * pi / 180) +
             (py - (pos_y (overlayState s) + real (height ov) * \<bar>scale (overlayState s)\<bar> / 2)) *
             cos (- angle (overlayState s) * pi / 180)) -
            (- (real (height ov) * \<bar>scale (overlayState s)\<bar>) / 2)\<bar> \<le> 10)"
      (is "\<not> (\<bar>?lx - (- ?w / 2)\<bar> \<le> 10 \<and> \<bar>?ly - (- ?h / 2)\<bar> \<le> 10)")
    assume c2: "\<not> (\<bar>?lx - ?w / 2\<bar> \<le> 10 \<and> \<bar>?ly - (- ?h / 2)\<bar> \<le> 10)"
      and c3: "\<not> (\<bar>?lx - ?w / 2\<bar> \<le> 10 \<and> \<bar>?ly - ?h / 2\<bar> \<le> 10)"
      and c4: "\<not> (\<bar>?lx - (- ?w / 2)\<bar> \<le> 10 \<and> \<bar>?ly - ?h / 2\<bar> \<le> 10)"
      and c5: "\<not> (\<bar>?lx\<bar> \<le> ?w / 2 \<and> \<bar>?ly\<bar> \<le> ?h / 2)"
    have "pointerdown px py s = gestureDown ?lx ?ly ?w ?h (saveState s)"
      unfolding pointerdown_def Let_def
      by (simp only: assms(2,3) option.case nc if_False saveState_fields)
    also have "\<dots> = saveState s" using c c2 c3 c4 c5 by (rule gestureDown_miss)
    finally show "pointerdown px py s =
        s\<lparr>undoStack := undoStack s @ [Snapshot ov ov (overlayState s)], redoStack := []\<rparr>"
      by (simp only: save)
  qed
  from stacks miss show ?thesis by blast
qed

theorem pointerdown_saves_state_witness:
  "reachable loadedApp \<and> overlayImg loadedApp = Some exampleOverlay
   \<and> bgImg loadedApp = Some exampleBg \<and> \<not> cropMode loadedApp
   \<and> undoStack (pointerdown 190 90 loadedApp) =
       [Snapshot exampleOverlay exampleOverlay loadedState,
        Snapshot exampleOverlay exampleOverlay loadedState]
   \<and> redoStack (pointerdown 190 90 loadedApp) = []
   \<and> pointerdown 190 90 loadedApp =
       loadedApp\<lparr>undoStack := [Snapshot exampleOverlay exampleOverlay loadedState,
                      Snapshot exampleOverlay exampleOverlay loadedState],
                 redoStack := []\<rparr>"
  using pointerdown_saves_state [OF reachable_loadedApp loadedApp_fields(1) loadedApp_fields(3),
      of 190 90] reachable_loadedApp
  by (simp add: loadedApp_fields Let_def loadedState_def)

text \<open>
  C7. The angle input stores a value outside \<open>[-180, 180]\<close>: the handler takes off or
  adds one turn only, so the input 1000 is stored as 640. The rotation buttons go through
  \<open>normalizeAngle\<close>: from an angle in \<open>[-180, 180]\<close> they return with an angle in
  \<open>[-180, 180]\<close>, and from any angle the angle is in \<open>[-180, 180]\<close> whenever they return.
\<close>

theorem angleInput_out_of_range:
  "angle (overlayState (angleInput (Some 1000) s)) = 640
   \<and> \<not> angle (overlayState (angleInput (Some 1000) s)) \<le> 180
   \<and> (- 180 \<le> angle (overlayState s) \<and> angle (overlayState s) \<le> 180 \<longrightarrow>
        (\<exists>s'. rotP5 s = Some s'
              \<and> - 180 \<le> angle (overlayState s') \<and> angle (overlayState s') \<le> 180)
        \<and> (\<exists>s'. rotM5 s = Some s'
              \<and> - 180 \<le> angle (overlayState s') \<and> angle (overlayState s') \<le> 180))
   \<and> (\<forall>s'. rotP5 s = Some s' \<longrightarrow>
         - 180 \<le> angle (overlayState s') \<and> angle (overlayState s') \<le> 180)
   \<and> (\<forall>s'. rotM5 s = Some s' \<longrightarrow>
         - 180 \<le> angle (overlayState s') \<and> angle (overlayState s') \<le> 180)"
proof -
  have input: "angle (overlayState (angleInput (Some 1000) s)) = 640"
    by (simp add: angleInput_def Let_def)
  have st: "angle (overlayState (saveState s)) = angle (overlayState s)"
    by (simp add: saveState_fields)
  have returns: "- 180 \<le> angle (overlayState s) \<and> angle (overlayState s) \<le> 180 \<longrightarrow>
        (\<exists>s'. rotP5 s = Some s'
              \<and> - 180 \<le> angle (overlayState s') \<and> angle (overlayState s') \<le> 180)
        \<and> (\<exists>s'. rotM5 s = Some s'
              \<and> - 180 \<le> angle (overlayState s') \<and> angle (overlayState s') \<le> 180)"
  proof (intro impI, elim conjE)
    assume lo: "- 180 \<le> angle (overlayState s)" and hi: "angle (overlayState s) \<le> 180"
    from lo hi obtain r where r: "normalizeAngle (angle (overlayState s) + 5) = Some r"
        "- 180 \<le> r" "r \<le> 180"
      using normalizeAngle_returns [of "angle (overlayState s) + 5"] by auto
    from lo hi obtain r' where r': "normalizeAngle (angle (overlayState s) - 5) = Some r'"
        "- 180 \<le> r'" "r' \<le> 180"
      using normalizeAngle_returns [of "angle (overlayState s) - 5"] by auto
    from r have "\<exists>s'. rotP5 s = Some s'
              \<and> - 180 \<le> angle (overlayState s') \<and> angle (overlayState s') \<le> 180"
      by (simp add: rotP5_def Let_def st)
    moreover from r' have "\<exists>s'. rotM5 s = Some s'
              \<and> - 180 \<le> angle (overlayState s') \<and> angle (overlayState s') \<le> 180"
      by (simp add: rotM5_def Let_def st)
    ultimately show "(\<exists>s'. rotP5 s = Some s'
              \<and> - 180 \<le> angle (overlayState s') \<and> angle (overlayState s') \<le> 180)
        \<and> (\<exists>s'. rotM5 s = Some s'
              \<and> - 180 \<le> angle (overlayState s') \<and> angle (overlayState s') \<le> 180)" ..
  qed
  have p5: "\<forall>s'. rotP5 s = Some s' \<longrightarrow>
         - 180 \<le> angle (overlayState s') \<and> angle (overlayState s') \<le> 180"
    using normalizeAngle_Some_range
    by (auto simp: rotP5_def Let_def split: option.splits)
  have m5: "\<forall>s'. rotM5 s = Some s' \<longrightarrow>
         - 180 \<le> angle (overlayState s') \<and> angle (overlayState s') \<le> 180"
    using normalizeAngle_Some_range
    by (auto simp: rotM5_def Let_def split: option.splits)
  from input returns p5 m5 show ?thesis by simp
qed

theorem angleInput_out_of_range_witness:
  "- 180 \<le> angle (overlayState loadedApp) \<and> angle (overlayState loadedApp) \<le> 180
   \<and> rotP5 loadedApp = Some rotatedApp
   \<and> - 180 \<le> angle (overlayState rotatedApp) \<and> angle (overlayState rotatedApp) \<le> 180
   \<and> (\<exists>s'. rotM5 loadedApp = Some s'
          \<and> - 180 \<le> angle (overlayState s') \<and> angle (overlayState s') \<le> 180)"
proof -
  have a: "- 180 \<le> angle (overlayState loadedApp) \<and> angle (overlayState loadedApp) \<le> 180"
    by (simp add: loadedApp_eq loadedState_def)
  note t = angleInput_out_of_range [of loadedApp]
  from t have "\<forall>s'. rotP5 loadedApp = Some s' \<longrightarrow>
         - 180 \<le> angle (overlayState s') \<and> angle (overlayState s') \<le> 180"
    by blast
  with rotP5_loadedApp
  have b: "- 180 \<le> angle (overlayState rotatedApp) \<and> angle (overlayState rotatedApp) \<le> 180"
    by blast
  from t a have c: "\<exists>s'. rotM5 loadedApp = Some s'
          \<and> - 180 \<le> angle (overlayState s') \<and> angle (overlayState s') \<le> 180"
    by blast
  from a b c rotP5_loadedApp show ?thesis by blast
qed

text \<open>
  C6. With a selection and an original image present, \<open>performCrop\<close> takes the selection
  normalised and un-flipped, computes \<open>u1 = max(0, floor(x1 + width/2))\<close>,
  \<open>u2 = min(width, ceil(x2 + width/2))\<close> and \<open>v1\<close>, \<open>v2\<close> likewise with the height, and
  when \<open>u2 - u1 \<le> 0\<close> or \<open>v2 - v1 \<le> 0\<close> it only clears the selection: both images,
  every field of \<open>overlayState\<close> and both stacks are as before, and no branch that throws
  is taken.
\<close>

theorem performCrop_abort:
  assumes "cropStart s = Some cs" and "cropEnd s = Some ce"
    and "overlayOriginalImg s = Some orig"
  shows "let x1n = min (fst cs) (fst ce);
             x2n = max (fst cs) (fst ce);
             y1n = min (snd cs) (snd ce);
             y2n = max (snd cs) (snd ce);
             x1 = (if flipH (overlayState s) then - x2n else x1n);
             x2 = (if flipH (overlayState s) then - x1n else x2n);
             y1 = (if flipV (overlayState s) then - y2n else y1n);
             y2 = (if flipV (overlayState s) then - y1n else y2n);
             u1 = max 0 \<lfloor>x1 + real (width orig) / 2\<rfloor>;
             u2 = min (int (width orig)) \<lceil>x2 + real (width orig) / 2\<rceil>;
             v1 = max 0 \<lfloor>y1 + real (height orig) / 2\<rfloor>;
             v2 = min (int (height orig)) \<lceil>y2 + real (height orig) / 2\<rceil>
         in u2 - u1 \<le> 0 \<or> v2 - v1 \<le> 0 \<longrightarrow>
              performCrop s = s\<lparr>cropStart := None, cropEnd := None\<rparr>
              \<and> overlayImg (performCrop s) = overlayImg s
              \<and> overlayOriginalImg (performCrop s) = overlayOriginalImg s
              \<and> overlayState (performCrop s) = overlayState s
              \<and> undoStack (performCrop s) = undoStack s
              \<and> redoStack (performCrop s) = redoStack s"
proof -
  have fields: "\<And>t. t = s\<lparr>cropStart := None, cropEnd := None\<rparr> \<Longrightarrow>
      t = s\<lparr>cropStart := None, cropEnd := None\<rparr>
      \<and> overlayImg t = overlayImg s
      \<and> overlayOriginalImg t = overlayOriginalImg s
      \<and> overlayState t = overlayState s
      \<and> undoStack t = undoStack s
      \<and> redoStack t = redoStack s"
    by simp
  show ?thesis
    unfolding Let_def
  proof (rule impI, rule fields)
    assume "min (int (width orig))
         \<lceil>(if flipH (overlayState s) then - min (fst cs) (fst ce) else max (fst cs) (fst ce)) +
          real (width orig) / 2\<rceil> -
        max 0 \<lfloor>(if flipH (overlayState s) then - max (fst cs) (fst ce) else min (fst cs) (fst ce)) +
               real (width orig) / 2\<rfloor> \<le> 0
        \<or> min (int (height orig))
         \<lceil>(if flipV (overlayState s) then - min (snd cs) (snd ce) else max (snd cs) (snd ce)) +
          real (height orig) / 2\<rceil> -
        max 0 \<lfloor>(if flipV (overlayState s) then - max (snd cs) (snd ce) else min (snd cs) (snd ce)) +
               real (height orig) / 2\<rfloor> \<le> 0"
    then show "performCrop s = s\<lparr>cropStart := None, cropEnd := None\<rparr>"
      unfolding performCrop_def Let_def
      by (simp only: assms option.case if_True)
  qed
qed

theorem performCrop_abort_witness:
  "cropStart cropStartedApp = Some (0, 0) \<and> cropEnd cropStartedApp = Some (0, 0)
   \<and> overlayOriginalImg cropStartedApp = Some exampleOverlay
   \<and> performCrop cropStartedApp = cropStartedApp\<lparr>cropStart := None, cropEnd := None\<rparr>
   \<and> overlayState (performCrop cropStartedApp) = overlayState cropStartedApp"
proof -
  have f: "cropStart cropStartedApp = Some (0, 0)" "cropEnd cropStartedApp = Some (0, 0)"
    "overlayOriginalImg cropStartedApp = Some exampleOverlay"
    "flipH (overlayState cropStartedApp) = False"
    "flipV (overlayState cropStartedApp) = False"
    by (simp_all add: cropStartedApp_eq loadedApp_eq loadedState_def)
  from performCrop_abort [OF f(1-3)] f show ?thesis
    by (simp add: Let_def)
qed









end
